theory Spec2Isabelle
  imports Main "HOL-Library.AList" "HOL-Library.Sublist"
begin

section \<open>The platform under the store manager\<close>

text \<open>
  \<^verbatim>\<open>src/gitstore-manager.js\<close> runs on Node: it reads \<^verbatim>\<open>process.env\<close>, resolves paths
  with the \<^verbatim>\<open>path\<close> module, reads and writes files through \<^verbatim>\<open>fs\<close>, and runs the
  \<^verbatim>\<open>git\<close> executable through \<^verbatim>\<open>execFile\<close>. None of these is code of the repository.
  The file system is modelled concretely (a finite table from absolute paths to nodes);
  git and the JSON codec are parameters of the model, collected in a \<open>platform\<close>.
\<close>

subsection \<open>Paths\<close>

text \<open>
  A resolved path is the list of its segments below the root. The strings the program
  passes around (\<^verbatim>\<open>relativePath\<close>) stay strings; they are split at \<^verbatim>\<open>/\<close> and resolved
  lexically, as \<^verbatim>\<open>path.join\<close> and the operating system do in the absence of symbolic links.
\<close>

type_synonym path = "string list"

fun segments :: "string \<Rightarrow> string list" where
  "segments [] = [[]]"
| "segments (c # cs) =
     (if c = CHR ''/'' then [] # segments cs
      else (case segments cs of [] \<Rightarrow> [[c]] | sg # sgs \<Rightarrow> (c # sg) # sgs))"

definition enter :: "path \<Rightarrow> string \<Rightarrow> path" where
  "enter acc sg =
     (if sg = [] \<or> sg = ''.'' then acc
      else if sg = ''..'' then butlast acc
      else acc @ [sg])"

definition path_join :: "path \<Rightarrow> string \<Rightarrow> path" where
  "path_join base rel = foldl enter base (segments rel)"

definition isAbsolute :: "string \<Rightarrow> bool" where
  "isAbsolute p = (case p of [] \<Rightarrow> False | c # _ \<Rightarrow> c = CHR ''/'')"

definition pathString :: "path \<Rightarrow> string" where
  "pathString p = (if p = [] then ''/'' else concat (map (\<lambda>sg. ''/'' @ sg) p))"

subsection \<open>The file system\<close>

datatype node = File string | Dir

type_synonym fs = "(path \<times> node) list"

text \<open>Every thrown value of the program is an \<^verbatim>\<open>Error\<close> with a message.\<close>

datatype exn = FsError string | SyntaxError string | GitError string

fun message :: "exn \<Rightarrow> string" where
  "message (FsError m) = m"
| "message (SyntaxError m) = m"
| "message (GitError m) = m"

text \<open>\<^verbatim>\<open>err?.message || String(err)\<close>: an empty message falls back to the error's name.\<close>

definition errText :: "exn \<Rightarrow> string" where
  "errText e =
     (if message e = [] then (case e of SyntaxError _ \<Rightarrow> ''SyntaxError'' | _ \<Rightarrow> ''Error'')
      else message e)"

definition lookup :: "fs \<Rightarrow> path \<Rightarrow> node option" where
  "lookup d p = (if p = [] then Some Dir else map_of d p)"

definition existsSync :: "fs \<Rightarrow> path \<Rightarrow> bool" where
  "existsSync d p = (lookup d p \<noteq> None)"

definition isFile :: "fs \<Rightarrow> path \<Rightarrow> bool" where
  "isFile d p = (case lookup d p of Some (File _) \<Rightarrow> True | _ \<Rightarrow> False)"

definition isDir :: "fs \<Rightarrow> path \<Rightarrow> bool" where
  "isDir d p = (lookup d p = Some Dir)"

definition put :: "path \<Rightarrow> node \<Rightarrow> fs \<Rightarrow> fs" where
  "put p n d = AList.update p n d"

text \<open>The directories \<^verbatim>\<open>mkdir -p\<close> walks through: every non-empty prefix of the path.\<close>

definition dirsTo :: "path \<Rightarrow> path list" where
  "dirsTo p = map (\<lambda>n. take n p) [1..<Suc (length p)]"

text \<open>\<^verbatim>\<open>fs.mkdir(p, { recursive: true })\<close>\<close>

definition fs_mkdir :: "path \<Rightarrow> fs \<Rightarrow> exn + (unit \<times> fs)" where
  "fs_mkdir p d =
     (if list_ex (isFile d) (dirsTo p) then Inl (FsError ''EEXIST: file already exists, mkdir'')
      else Inr ((), fold (\<lambda>q. put q Dir) (dirsTo p) d))"

text \<open>\<^verbatim>\<open>fs.writeFile(p, content)\<close>\<close>

definition fs_writeFile :: "path \<Rightarrow> string \<Rightarrow> fs \<Rightarrow> exn + (unit \<times> fs)" where
  "fs_writeFile p content d =
     (if isDir d p then Inl (FsError ''EISDIR: illegal operation on a directory, open'')
      else if isFile d (butlast p) then Inl (FsError ''ENOTDIR: not a directory, open'')
      else if \<not> isDir d (butlast p) then Inl (FsError ''ENOENT: no such file or directory, open'')
      else Inr ((), put p (File content) d))"

text \<open>\<^verbatim>\<open>fs.readFile(p)\<close>\<close>

definition fs_readFile :: "path \<Rightarrow> fs \<Rightarrow> exn + (string \<times> fs)" where
  "fs_readFile p d =
     (case lookup d p of
        None \<Rightarrow> Inl (FsError ''ENOENT: no such file or directory, open'')
      | Some Dir \<Rightarrow> Inl (FsError ''EISDIR: illegal operation on a directory, read'')
      | Some (File content) \<Rightarrow> Inr (content, d))"

text \<open>\<^verbatim>\<open>(await fs.stat(p)).isDirectory()\<close>\<close>

definition fs_stat_isDirectory :: "path \<Rightarrow> fs \<Rightarrow> exn + (bool \<times> fs)" where
  "fs_stat_isDirectory p d =
     (case lookup d p of
        None \<Rightarrow> Inl (FsError ''ENOENT: no such file or directory, stat'')
      | Some n \<Rightarrow> Inr (n = Dir, d))"

text \<open>\<^verbatim>\<open>fs.access(p)\<close>\<close>

definition fs_access :: "path \<Rightarrow> fs \<Rightarrow> exn + (unit \<times> fs)" where
  "fs_access p d =
     (if existsSync d p then Inr ((), d)
      else Inl (FsError ''ENOENT: no such file or directory, access''))"

text \<open>\<^verbatim>\<open>fs.readdir(p)\<close>: the names directly below a directory.\<close>

definition fs_readdir :: "path \<Rightarrow> fs \<Rightarrow> exn + (string list \<times> fs)" where
  "fs_readdir p d =
     (case lookup d p of
        None \<Rightarrow> Inl (FsError ''ENOENT: no such file or directory, scandir'')
      | Some (File _) \<Rightarrow> Inl (FsError ''ENOTDIR: not a directory, scandir'')
      | Some Dir \<Rightarrow>
          Inr (map (\<lambda>(q, _). last q)
                 (filter (\<lambda>(q, _). length q = Suc (length p) \<and> take (length p) q = p) d), d))"

text \<open>
  \<^verbatim>\<open>fs.mkdtemp(prefix)\<close> makes a fresh directory whose name is the prefix followed by
  six characters of the platform's choosing.
\<close>

definition fs_mkdtemp :: "path \<Rightarrow> string \<Rightarrow> string \<Rightarrow> fs \<Rightarrow> exn + (path \<times> fs)" where
  "fs_mkdtemp parent pre chosen d =
     (let p = parent @ [pre @ chosen] in
      if \<not> isDir d parent then Inl (FsError ''ENOENT: no such file or directory, mkdtemp'')
      else if existsSync d p then Inl (FsError ''EEXIST: file already exists, mkdtemp'')
      else Inr (p, put p Dir d))"

text \<open>
  \<^verbatim>\<open>fs.cp(from, to, { recursive: true })\<close>: the node at \<open>from\<close> and everything below it
  is written below \<open>to\<close>; a file never replaces a directory nor a directory a file. A copy
  that fails leaves the table as it was.
\<close>

definition clashes :: "fs \<Rightarrow> path \<times> node \<Rightarrow> bool" where
  "clashes d e = (case e of (q, n) \<Rightarrow> (if n = Dir then isFile d q else isDir d q))"

definition fs_cp :: "path \<Rightarrow> path \<Rightarrow> fs \<Rightarrow> exn + (unit \<times> fs)" where
  "fs_cp src dst d =
     (case lookup d src of
        None \<Rightarrow> Inl (FsError ''ENOENT: no such file or directory, cp'')
      | Some n \<Rightarrow>
          if src = dst then Inl (FsError ''ERR_FS_CP_EINVAL: src and dest cannot be the same'')
          else if n = Dir \<and> prefix src dst
            then Inl (FsError ''ERR_FS_CP_EINVAL: cannot copy to a subdirectory of self'')
          else
            (let below = filter (\<lambda>(q, _). prefix src q) d;
                 moved = (dst, n) # map (\<lambda>(q, m). (dst @ drop (length src) q, m)) below
             in if list_ex (clashes d) moved
                then Inl (FsError ''ERR_FS_CP_DIR_TO_NON_DIR: cannot overwrite'')
                else Inr ((), fold (\<lambda>(q, m). put q m) moved d)))"

subsection \<open>Git, JSON and the process\<close>

datatype json =
    JNull
  | JBool bool
  | JNum int
  | JStr string
  | JArr "json list"
  | JObj "(string \<times> json) list"

record git_call =
  args :: "string list"
  cwd :: path
  env :: "(string \<times> string) list option"

text \<open>
  What the process did outside itself, in order: each run of git with its outcome
  (\<open>None\<close> for exit status 0, \<open>Some m\<close> for a rejected \<^verbatim>\<open>exec\<close> with message \<open>m\<close>)
  and each \<^verbatim>\<open>setTimeout\<close> delay in milliseconds.
\<close>

datatype event = Git git_call "string option" | Sleep nat

text \<open>
  The git executable is a function of everything it can depend on: the runs so far,
  the files on disk and the command line. It returns its outcome and the disk it leaves.
\<close>

record platform =
  processCwd :: path
  processEnv :: "(string \<times> string) list"
  git :: "event list \<Rightarrow> fs \<Rightarrow> git_call \<Rightarrow> string option \<times> fs"
  json_stringify :: "json \<Rightarrow> string"
  json_parse :: "string \<Rightarrow> string + json"
  tempSuffix :: string

text \<open>\<^verbatim>\<open>process.env[key]\<close>, with \<^verbatim>\<open>undefined\<close> and the empty string both falsy.\<close>

definition envSet :: "platform \<Rightarrow> string \<Rightarrow> bool" where
  "envSet P key = (case map_of (processEnv P) key of None \<Rightarrow> False | Some v \<Rightarrow> v \<noteq> [])"

definition envValue :: "platform \<Rightarrow> string \<Rightarrow> string" where
  "envValue P key = (case map_of (processEnv P) key of None \<Rightarrow> [] | Some v \<Rightarrow> v)"

section \<open>The store manager\<close>

datatype mode = ACTIVE | DEGRADED | LOCAL

definition DEFAULT_FILES :: "string list" where
  "DEFAULT_FILES = [''config.json'', ''provider_pools.json'', ''pwd'', ''configs'']"

definition DEFAULT_BRANCH :: "platform \<Rightarrow> string" where
  "DEFAULT_BRANCH P =
     (if envSet P ''GITSTORE_GIT_BRANCH'' then envValue P ''GITSTORE_GIT_BRANCH'' else ''main'')"

definition REQUIRED_ENV :: "string list" where
  "REQUIRED_ENV = [''GITSTORE_GIT_URL'', ''GITSTORE_GIT_USERNAME'', ''GITSTORE_GIT_TOKEN'']"

text \<open>
  The fields of the \<^verbatim>\<open>GitstoreManager\<close> instance, together with the disk and the log of
  external events. \<^verbatim>\<open>baseDir\<close>, \<^verbatim>\<open>gitDir\<close> and \<^verbatim>\<open>localDir\<close> never change after the
  constructor and are functions of the platform.
\<close>

record world =
  files :: "string list"
  branch :: string
  mode :: mode
  pending :: bool
  error :: "string option"
  initialized :: bool
  gitEnv :: "(string \<times> string) list option"
  askPassPath :: "path option"
  disk :: fs
  trace :: "event list"

record snapshot =
  st_mode :: mode
  st_pending :: bool
  st_error :: "string option"
  st_branch :: string

definition baseDir :: "platform \<Rightarrow> path" where
  "baseDir P = processCwd P @ [''data'']"

definition gitDir :: "platform \<Rightarrow> path" where
  "gitDir P = baseDir P @ [''gitstore'']"

definition localDir :: "platform \<Rightarrow> path" where
  "localDir P = baseDir P"

text \<open>The constructor, on a process whose disk is \<open>d\<close>.\<close>

definition constructor :: "platform \<Rightarrow> fs \<Rightarrow> world" where
  "constructor P d =
     \<lparr> files = DEFAULT_FILES, branch = DEFAULT_BRANCH P, mode = LOCAL, pending = False,
       error = None, initialized = False, gitEnv = None, askPassPath = None,
       disk = d, trace = [] \<rparr>"

subsection \<open>Asynchronous code as state passing with exceptions\<close>

text \<open>
  An \<^verbatim>\<open>async\<close> method takes the world and returns the world it leaves, with either the
  value it resolves to or the error it rejects with. The instance is mutated in place,
  so the changes made before a \<^verbatim>\<open>throw\<close> stay.
\<close>

type_synonym 'a io = "world \<Rightarrow> (exn + 'a) \<times> world"

definition ret :: "'a \<Rightarrow> 'a io" where
  "ret x s = (Inr x, s)"

definition andThen :: "'a io \<Rightarrow> ('a \<Rightarrow> 'b io) \<Rightarrow> 'b io" where
  "andThen m k s = (case m s of (Inl e, s') \<Rightarrow> (Inl e, s') | (Inr x, s') \<Rightarrow> k x s')"

definition tryCatch :: "'a io \<Rightarrow> (exn \<Rightarrow> 'a io) \<Rightarrow> 'a io" where
  "tryCatch m h s = (case m s of (Inl e, s') \<Rightarrow> h e s' | (Inr x, s') \<Rightarrow> (Inr x, s'))"

definition throw :: "exn \<Rightarrow> 'a io" where
  "throw e s = (Inl e, s)"

definition gets :: "(world \<Rightarrow> 'a) \<Rightarrow> 'a io" where
  "gets f s = (Inr (f s), s)"

definition modify :: "(world \<Rightarrow> world) \<Rightarrow> unit io" where
  "modify f s = (Inr (), f s)"

definition onDisk :: "(fs \<Rightarrow> exn + ('a \<times> fs)) \<Rightarrow> 'a io" where
  "onDisk f s =
     (case f (disk s) of Inl e \<Rightarrow> (Inl e, s) | Inr (x, d') \<Rightarrow> (Inr x, s\<lparr>disk := d'\<rparr>))"

text \<open>\<^verbatim>\<open>await new Promise((resolve) => setTimeout(resolve, ms))\<close>\<close>

definition sleep :: "nat \<Rightarrow> unit io" where
  "sleep ms s = (Inr (), s\<lparr>trace := trace s @ [Sleep ms]\<rparr>)"

subsection \<open>Path resolution and small helpers\<close>

definition getState :: "snapshot io" where
  "getState s =
     (Inr \<lparr> st_mode = mode s, st_pending = pending s, st_error = error s,
            st_branch = branch s \<rparr>, s)"

definition resolveWorkingPath :: "platform \<Rightarrow> string \<Rightarrow> path" where
  "resolveWorkingPath P relativePath =
     (if isAbsolute relativePath then path_join [] relativePath
      else path_join (processCwd P) relativePath)"

definition resolveLocalPath :: "platform \<Rightarrow> string \<Rightarrow> path" where
  "resolveLocalPath P relativePath =
     (if isAbsolute relativePath then path_join [] relativePath
      else path_join (localDir P) relativePath)"

definition resolveGitPath :: "platform \<Rightarrow> string \<Rightarrow> path" where
  "resolveGitPath P relativePath =
     (if isAbsolute relativePath then path_join [] relativePath
      else path_join (gitDir P) relativePath)"

text \<open>
  \<^verbatim>\<open>`${this.resolveWorkingPath(relativePath)}.example`\<close>: the suffix is appended to the
  path string, so it extends the last segment unless the string ends in a slash.
\<close>

definition examplePath :: "platform \<Rightarrow> string \<Rightarrow> path" where
  "examplePath P relativePath =
     (if isAbsolute relativePath then path_join [] (relativePath @ ''.example'')
      else
        (let w = resolveWorkingPath P relativePath in
         if w = [] \<or> (relativePath \<noteq> [] \<and> last relativePath = CHR ''/'')
         then w @ [''.example'']
         else butlast w @ [last w @ ''.example'']))"

text \<open>\<^verbatim>\<open>Array.from(new Set(xs))\<close> keeps the first occurrence of each element.\<close>

definition dedupe :: "'a list \<Rightarrow> 'a list" where
  "dedupe xs = rev (remdups (rev xs))"

fun joinWith :: "string \<Rightarrow> string list \<Rightarrow> string" where
  "joinWith sep [] = []"
| "joinWith sep [x] = x"
| "joinWith sep (x # y # ys) = x @ sep @ joinWith sep (y # ys)"

definition writeFile :: "path \<Rightarrow> string \<Rightarrow> unit io" where
  "writeFile filePath content =
     andThen (onDisk (fs_mkdir (butlast filePath))) (\<lambda>_.
     onDisk (fs_writeFile filePath content))"

definition copyPath :: "path \<Rightarrow> path \<Rightarrow> unit io" where
  "copyPath fromPath toPath =
     andThen (onDisk (fs_mkdir (butlast toPath))) (\<lambda>_.
     onDisk (fs_cp fromPath toPath))"

subsection \<open>Running git\<close>

definition runGit :: "platform \<Rightarrow> string list \<Rightarrow> path \<Rightarrow> unit io" where
  "runGit P as dir s =
     (let c = \<lparr> args = as, cwd = dir, env = gitEnv s \<rparr>;
          (outcome, d') = git P (trace s) (disk s) c;
          s' = s\<lparr> disk := d', trace := trace s @ [Git c outcome] \<rparr>
      in case outcome of None \<Rightarrow> (Inr (), s') | Some m \<Rightarrow> (Inl (GitError m), s'))"

definition askPassScript :: string where
  "askPassScript =
     joinWith [CHR 0x0A]
       [''#!/bin/sh'',
        ''case '' @ [CHR 0x22] @ ''$1'' @ [CHR 0x22] @ '' in'',
        ''*Username*) echo '' @ [CHR 0x22] @ ''$GITSTORE_GIT_USERNAME'' @ [CHR 0x22] @ '' ;;'',
        ''*) echo '' @ [CHR 0x22] @ ''$GITSTORE_GIT_TOKEN'' @ [CHR 0x22] @ '' ;;'',
        ''esac'']"

definition prepareGitEnv :: "platform \<Rightarrow> ((string \<times> string) list) io" where
  "prepareGitEnv P =
     andThen (onDisk (fs_mkdtemp (baseDir P) ''gitstore-askpass-'' (tempSuffix P))) (\<lambda>askPassDir.
     andThen (onDisk (fs_writeFile (askPassDir @ [''askpass.sh'']) askPassScript)) (\<lambda>_.
     andThen (modify (\<lambda>s. s\<lparr> askPassPath := Some (askPassDir @ [''askpass.sh'']) \<rparr>)) (\<lambda>_.
     ret (AList.update ''GITSTORE_GIT_TOKEN'' (envValue P ''GITSTORE_GIT_TOKEN'')
           (AList.update ''GITSTORE_GIT_USERNAME'' (envValue P ''GITSTORE_GIT_USERNAME'')
             (AList.update ''GIT_TERMINAL_PROMPT'' ''0''
               (AList.update ''GIT_ASKPASS'' (pathString (askPassDir @ [''askpass.sh'']))
                 (processEnv P))))))))"

definition pullLatest :: "platform \<Rightarrow> unit io" where
  "pullLatest P =
     andThen (gets branch) (\<lambda>b. runGit P [''pull'', ''origin'', b, ''--rebase''] (gitDir P))"

definition checkoutBranch :: "platform \<Rightarrow> unit io" where
  "checkoutBranch P =
     andThen (gets branch) (\<lambda>b.
     tryCatch (runGit P [''checkout'', b] (gitDir P))
       (\<lambda>err. runGit P [''checkout'', ''-b'', b] (gitDir P)))"

definition prepareRepository :: "platform \<Rightarrow> unit io" where
  "prepareRepository P =
     andThen (gets (\<lambda>s. existsSync (disk s) (gitDir P @ [''.git'']))) (\<lambda>hasGit.
     andThen
       (if \<not> hasGit then
          andThen (onDisk (fs_readdir (gitDir P))) (\<lambda>dirEntries.
          if length dirEntries = 0 then
            runGit P [''clone'', envValue P ''GITSTORE_GIT_URL'', pathString (gitDir P)]
              (processCwd P)
          else
            andThen (runGit P [''init''] (gitDir P)) (\<lambda>_.
            tryCatch
              (runGit P [''remote'', ''add'', ''origin'', envValue P ''GITSTORE_GIT_URL'']
                 (gitDir P))
              (\<lambda>_. ret ())))
        else ret ()) (\<lambda>_.
     andThen (tryCatch (runGit P [''fetch'', ''origin''] (gitDir P)) (\<lambda>_. ret ())) (\<lambda>_.
     andThen (checkoutBranch P) (\<lambda>_.
     tryCatch (pullLatest P) (\<lambda>_. ret ())))))"

definition stageFiles :: "platform \<Rightarrow> string list \<Rightarrow> unit io" where
  "stageFiles P fls = runGit P (''add'' # fls) (gitDir P)"

definition hasStagedChanges :: "platform \<Rightarrow> bool io" where
  "hasStagedChanges P =
     tryCatch
       (andThen (runGit P [''diff'', ''--cached'', ''--quiet''] (gitDir P)) (\<lambda>_. ret False))
       (\<lambda>err. ret True)"

definition hasHead :: "platform \<Rightarrow> bool io" where
  "hasHead P =
     tryCatch
       (andThen (runGit P [''rev-parse'', ''--verify'', ''HEAD''] (gitDir P)) (\<lambda>_. ret True))
       (\<lambda>err. ret False)"

definition commit :: "platform \<Rightarrow> unit io" where
  "commit P =
     andThen (hasHead P) (\<lambda>hasHead'.
     if hasHead' then
       runGit P [''commit'', ''--amend'', ''--no-edit'', ''--allow-empty''] (gitDir P)
     else
       runGit P [''commit'', ''-m'', ''gitstore: init data''] (gitDir P))"

text \<open>
  The \<^verbatim>\<open>for\<close> loop of \<^verbatim>\<open>_pushWithRetry\<close>, by the number of attempts that remain:
  a push that succeeds returns \<^verbatim>\<open>true\<close> from inside the loop, one that fails records
  its message, waits three seconds and goes round again.
\<close>

primrec pushAttempts :: "platform \<Rightarrow> nat \<Rightarrow> bool io" where
  "pushAttempts P 0 = ret False"
| "pushAttempts P (Suc n) =
     andThen
       (tryCatch
          (andThen (gets branch) (\<lambda>b.
           andThen (runGit P [''push'', ''origin'', b, ''--force''] (gitDir P)) (\<lambda>_.
           ret True)))
          (\<lambda>err.
           andThen (modify (\<lambda>s. s\<lparr> error := Some (errText err) \<rparr>)) (\<lambda>_.
           andThen (sleep 3000) (\<lambda>_.
           ret False))))
       (\<lambda>pushed. if pushed then ret True else pushAttempts P n)"

definition pushWithRetry :: "platform \<Rightarrow> bool \<Rightarrow> bool io" where
  "pushWithRetry P shouldPush =
     (if \<not> shouldPush then ret True else pushAttempts P 3)"

definition pickSource :: "platform \<Rightarrow> path \<Rightarrow> path \<Rightarrow> string \<Rightarrow> (path option) io" where
  "pickSource P gitPath localPath relativePath =
     andThen (gets (\<lambda>s. mode s \<noteq> LOCAL \<and> existsSync (disk s) gitPath)) (\<lambda>useGit.
     if useGit then ret (Some gitPath)
     else
       andThen (gets (\<lambda>s. existsSync (disk s) localPath)) (\<lambda>useLocal.
       if useLocal then ret (Some localPath)
       else
         andThen (gets (\<lambda>s. existsSync (disk s) (examplePath P relativePath))) (\<lambda>useExample.
         if useExample then ret (Some (examplePath P relativePath))
         else ret None)))"

subsection \<open>The public operations\<close>

definition ensureInitialized :: "platform \<Rightarrow> string list \<Rightarrow> snapshot io" where
  "ensureInitialized P fls =
     andThen (if length fls \<noteq> 0
              then modify (\<lambda>s. s\<lparr> files := dedupe (files s @ fls) \<rparr>) else ret ()) (\<lambda>_.
     andThen (gets initialized) (\<lambda>ready.
     if ready then getState
     else
       andThen (onDisk (fs_mkdir (baseDir P))) (\<lambda>_.
       andThen (onDisk (fs_mkdir (gitDir P))) (\<lambda>_.
       let missingEnv = filter (\<lambda>key. \<not> envSet P key) REQUIRED_ENV in
       if length missingEnv > 0 then
         andThen (modify (\<lambda>s. s\<lparr> mode := LOCAL,
             error := Some (''Missing env: '' @ joinWith '', '' missingEnv),
             initialized := True \<rparr>)) (\<lambda>_.
         getState)
       else
         andThen
           (tryCatch
              (andThen (prepareGitEnv P) (\<lambda>ge.
               andThen (modify (\<lambda>s. s\<lparr> gitEnv := Some ge \<rparr>)) (\<lambda>_.
               andThen (prepareRepository P) (\<lambda>_.
               modify (\<lambda>s. s\<lparr> mode := ACTIVE, pending := False, error := None \<rparr>)))))
              (\<lambda>err. modify (\<lambda>s. s\<lparr> mode := LOCAL, error := Some (errText err) \<rparr>))) (\<lambda>_.
         andThen (modify (\<lambda>s. s\<lparr> initialized := True \<rparr>)) (\<lambda>_.
         getState))))))"

text \<open>One round of the \<^verbatim>\<open>for\<close> loop of \<^verbatim>\<open>ensureWorkingCopies\<close>.\<close>

definition materialize :: "platform \<Rightarrow> string \<Rightarrow> unit io" where
  "materialize P relativePath =
     andThen (pickSource P (resolveGitPath P relativePath) (resolveLocalPath P relativePath)
                relativePath) (\<lambda>source.
     case source of
       None \<Rightarrow> ret ()
     | Some src \<Rightarrow>
         andThen (onDisk (fs_stat_isDirectory src)) (\<lambda>isDir'.
         if isDir' then
           andThen (copyPath src (resolveWorkingPath P relativePath)) (\<lambda>_.
           andThen (copyPath src (resolveLocalPath P relativePath)) (\<lambda>_.
           andThen (gets mode) (\<lambda>m.
           if m \<noteq> LOCAL then copyPath src (resolveGitPath P relativePath) else ret ())))
         else
           andThen (onDisk (fs_readFile src)) (\<lambda>content.
           andThen (writeFile (resolveWorkingPath P relativePath) content) (\<lambda>_.
           andThen (writeFile (resolveLocalPath P relativePath) content) (\<lambda>_.
           andThen (gets mode) (\<lambda>m.
           if m \<noteq> LOCAL then writeFile (resolveGitPath P relativePath) content
           else ret ()))))))"

primrec forEachFile :: "platform \<Rightarrow> string list \<Rightarrow> unit io" where
  "forEachFile P [] = ret ()"
| "forEachFile P (relativePath # rest) =
     andThen (materialize P relativePath) (\<lambda>_. forEachFile P rest)"

text \<open>
  \<^verbatim>\<open>ensureWorkingCopies(files = this.files)\<close>: \<open>None\<close> is the call without argument,
  whose default is read before anything else runs.
\<close>

definition ensureWorkingCopies :: "platform \<Rightarrow> string list option \<Rightarrow> snapshot io" where
  "ensureWorkingCopies P filesArg =
     andThen (gets files) (\<lambda>thisFiles.
     andThen (ensureInitialized P (case filesArg of None \<Rightarrow> thisFiles | Some fls \<Rightarrow> fls)) (\<lambda>_.
     andThen (gets mode) (\<lambda>m.
     andThen
       (if m \<noteq> LOCAL then
          tryCatch (pullLatest P)
            (\<lambda>err. modify (\<lambda>s. s\<lparr> mode := DEGRADED, error := Some (errText err),
                                    pending := True \<rparr>))
        else ret ()) (\<lambda>_.
     andThen (forEachFile P (case filesArg of None \<Rightarrow> thisFiles | Some fls \<Rightarrow> fls)) (\<lambda>_.
     getState)))))"

definition readJson :: "platform \<Rightarrow> string \<Rightarrow> json io" where
  "readJson P relativePath =
     andThen (ensureWorkingCopies P (Some [relativePath])) (\<lambda>_.
     andThen (onDisk (fs_readFile (resolveWorkingPath P relativePath))) (\<lambda>data.
     case json_parse P data of
       Inl m \<Rightarrow> throw (SyntaxError m)
     | Inr v \<Rightarrow> ret v))"

text \<open>\<^verbatim>\<open>typeof data === 'string' ? data : JSON.stringify(data, null, 2)\<close>\<close>

definition contentOf :: "platform \<Rightarrow> json \<Rightarrow> string" where
  "contentOf P data = (case data of JStr text \<Rightarrow> text | _ \<Rightarrow> json_stringify P data)"

definition writeJson :: "platform \<Rightarrow> string \<Rightarrow> json \<Rightarrow> snapshot io" where
  "writeJson P relativePath data =
     andThen (ensureInitialized P [relativePath]) (\<lambda>_.
     andThen (writeFile (resolveWorkingPath P relativePath) (contentOf P data)) (\<lambda>_.
     andThen (writeFile (resolveLocalPath P relativePath) (contentOf P data)) (\<lambda>_.
     andThen (gets mode) (\<lambda>m.
     if m = LOCAL then
       andThen (modify (\<lambda>s. s\<lparr> pending := False \<rparr>)) (\<lambda>_. getState)
     else
       andThen (writeFile (resolveGitPath P relativePath) (contentOf P data)) (\<lambda>_.
       andThen (stageFiles P [relativePath]) (\<lambda>_.
       andThen (hasStagedChanges P) (\<lambda>hasChanges.
       andThen (if hasChanges then commit P else ret ()) (\<lambda>_.
       andThen (gets pending) (\<lambda>pending'.
       andThen (pushWithRetry P (hasChanges \<or> pending')) (\<lambda>pushed.
       andThen
         (if \<not> pushed then modify (\<lambda>s. s\<lparr> mode := DEGRADED, pending := True \<rparr>)
          else modify (\<lambda>s. s\<lparr> mode := ACTIVE, pending := False, error := None \<rparr>)) (\<lambda>_.
       getState)))))))))))"

definition syncDirectory :: "platform \<Rightarrow> string \<Rightarrow> snapshot io" where
  "syncDirectory P relativeDir =
     andThen (ensureInitialized P [relativeDir]) (\<lambda>_.
     andThen (ensureWorkingCopies P (Some [relativeDir])) (\<lambda>_.
     andThen (gets (\<lambda>s. existsSync (disk s) (resolveWorkingPath P relativeDir))) (\<lambda>present.
     if \<not> present then getState
     else
       andThen (copyPath (resolveWorkingPath P relativeDir) (resolveLocalPath P relativeDir)) (\<lambda>_.
       andThen (gets mode) (\<lambda>m.
       if m = LOCAL then
         andThen (modify (\<lambda>s. s\<lparr> pending := False \<rparr>)) (\<lambda>_. getState)
       else
         andThen (copyPath (resolveWorkingPath P relativeDir) (resolveGitPath P relativeDir)) (\<lambda>_.
         andThen (stageFiles P [relativeDir]) (\<lambda>_.
         andThen (hasStagedChanges P) (\<lambda>hasChanges.
         andThen (if hasChanges then commit P else ret ()) (\<lambda>_.
         andThen (gets pending) (\<lambda>pending'.
         andThen (pushWithRetry P (hasChanges \<or> pending')) (\<lambda>pushed.
         andThen
           (if \<not> pushed then modify (\<lambda>s. s\<lparr> mode := DEGRADED, pending := True \<rparr>)
            else modify (\<lambda>s. s\<lparr> mode := ACTIVE, pending := False, error := None \<rparr>)) (\<lambda>_.
         getState))))))))))))"

text \<open>
  The argument object of \<^verbatim>\<open>syncAllInStore\<close>; \<open>None\<close> is \<^verbatim>\<open>undefined\<close>.
  \<open>defaultSyncArgs\<close> is the call without argument.
\<close>

record syncArgs =
  configPath :: string
  configData :: "json option"
  providerPoolsPath :: string
  providerPoolsData :: "json option"
  includeConfigsDir :: bool
  includePwd :: bool

definition defaultSyncArgs :: syncArgs where
  "defaultSyncArgs =
     \<lparr> configPath = ''config.json'', configData = None,
       providerPoolsPath = ''provider_pools.json'', providerPoolsData = Some (JObj []),
       includeConfigsDir = True, includePwd = True \<rparr>"

text \<open>\<^verbatim>\<open>x ?? {}\<close>\<close>

definition orEmptyObject :: "json option \<Rightarrow> json" where
  "orEmptyObject x = (case x of None \<Rightarrow> JObj [] | Some JNull \<Rightarrow> JObj [] | Some v \<Rightarrow> v)"

definition syncAllInStore :: "platform \<Rightarrow> syncArgs \<Rightarrow> snapshot io" where
  "syncAllInStore P a =
     andThen (ensureInitialized P [configPath a, providerPoolsPath a]) (\<lambda>_.
     andThen (ensureWorkingCopies P
                (Some ([configPath a, providerPoolsPath a]
                       @ (if includePwd a then [''pwd''] else [])
                       @ (if includeConfigsDir a then [''configs''] else [])))) (\<lambda>_.
     andThen
       (tryCatch
          (andThen (writeJson P (configPath a) (orEmptyObject (configData a))) (\<lambda>_.
           andThen (writeJson P (providerPoolsPath a) (orEmptyObject (providerPoolsData a))) (\<lambda>_.
           andThen
             (if includeConfigsDir a then
                tryCatch
                  (andThen (onDisk (fs_access (path_join (processCwd P) ''configs''))) (\<lambda>_.
                   andThen (syncDirectory P ''configs'') (\<lambda>_. ret ())))
                  (\<lambda>err. ret ())
              else ret ()) (\<lambda>_.
           andThen (gets (\<lambda>s. existsSync (disk s) (path_join (processCwd P) ''pwd''))) (\<lambda>pwdThere.
           if includePwd a \<and> pwdThere then
             andThen (onDisk (fs_readFile (path_join (processCwd P) ''pwd''))) (\<lambda>pwdContent.
             andThen (writeJson P ''pwd'' (JStr pwdContent)) (\<lambda>_. ret ()))
           else ret ())))))
          (\<lambda>err. modify (\<lambda>s. s\<lparr> mode := (if mode s = ACTIVE then DEGRADED else mode s),
                                  error := Some (errText err) \<rparr>))) (\<lambda>_.
     getState)))"

subsection \<open>Sequences of public operations\<close>

datatype op =
    Initialize "string list"
  | Materialize "string list option"
  | Read string
  | Write string json
  | SyncDirectory string
  | SyncAll syncArgs

text \<open>
  A caller's operation leaves the world behind whether it resolves or rejects; the next
  operation starts from there.
\<close>

fun runOp :: "platform \<Rightarrow> world \<Rightarrow> op \<Rightarrow> world" where
  "runOp P s (Initialize fls) = snd (ensureInitialized P fls s)"
| "runOp P s (Materialize fls) = snd (ensureWorkingCopies P fls s)"
| "runOp P s (Read k) = snd (readJson P k s)"
| "runOp P s (Write k v) = snd (writeJson P k v s)"
| "runOp P s (SyncDirectory k) = snd (syncDirectory P k s)"
| "runOp P s (SyncAll a) = snd (syncAllInStore P a s)"

definition runOps :: "platform \<Rightarrow> op list \<Rightarrow> world \<Rightarrow> world" where
  "runOps P ops s = foldl (runOp P) s ops"

subsection \<open>Vocabulary for the properties\<close>

text \<open>The command lines of the force-push and of the rebase-pull, as the manager issues them.\<close>

definition pushCall :: "platform \<Rightarrow> world \<Rightarrow> git_call" where
  "pushCall P s =
     \<lparr> args = [''push'', ''origin'', branch s, ''--force''], cwd = gitDir P, env = gitEnv s \<rparr>"


text \<open>The events an operation added to the log, and the git subcommand of an event.\<close>

definition newEvents :: "world \<Rightarrow> world \<Rightarrow> event list" where
  "newEvents s s' = drop (length (trace s)) (trace s')"

definition verb :: "event \<Rightarrow> string" where
  "verb e = (case e of Git c _ \<Rightarrow> (case args c of [] \<Rightarrow> [] | v # _ \<Rightarrow> v) | Sleep _ \<Rightarrow> [])"

definition isGit :: "event \<Rightarrow> bool" where
  "isGit e = (case e of Git _ _ \<Rightarrow> True | Sleep _ \<Rightarrow> False)"



text \<open>A file with the directories above it in place.\<close>

definition settled :: "fs \<Rightarrow> path \<Rightarrow> string \<Rightarrow> bool" where
  "settled d p c =
     (lookup d p = Some (File c) \<and> (\<forall>q\<in>set (dirsTo (butlast p)). lookup d q = Some Dir))"

text \<open>One of the required environment variables is unset or empty.\<close>

definition credentialsMissing :: "platform \<Rightarrow> bool" where
  "credentialsMissing P = (\<exists>key\<in>set REQUIRED_ENV. \<not> envSet P key)"

text \<open>The store is in LOCAL mode and nothing outside the process has been run.\<close>

definition localOnly :: "world \<Rightarrow> bool" where
  "localOnly s = (mode s = LOCAL \<and> trace s = [])"

text \<open>
  \<open>hoare A m B\<close>: from a world that satisfies \<open>A\<close>, the operation \<open>m\<close> leaves a
  world that satisfies \<open>B\<close>, whether it resolves or rejects.
\<close>

definition hoare :: "(world \<Rightarrow> bool) \<Rightarrow> 'a io \<Rightarrow> (world \<Rightarrow> bool) \<Rightarrow> bool" where
  "hoare A m B = (\<forall>s. A s \<longrightarrow> B (snd (m s)))"

text \<open>
  The invariant behind the pending flag: a push is pending only outside LOCAL mode, and a
  manager that has not finished initialising is in LOCAL mode.
\<close>

definition consistent :: "world \<Rightarrow> bool" where
  "consistent s =
     ((pending s \<longrightarrow> mode s \<noteq> LOCAL) \<and> (\<not> initialized s \<longrightarrow> mode s = LOCAL))"

text \<open>A predicate on worlds that does not look at the disk, the log or the bookkeeping fields.\<close>

definition steady :: "(world \<Rightarrow> bool) \<Rightarrow> bool" where
  "steady I =
     (\<forall>s d t a g f e.
        I (s\<lparr> disk := d \<rparr>) = I s \<and> I (s\<lparr> trace := t \<rparr>) = I s
        \<and> I (s\<lparr> askPassPath := a \<rparr>) = I s \<and> I (s\<lparr> gitEnv := g \<rparr>) = I s
        \<and> I (s\<lparr> files := f \<rparr>) = I s \<and> I (s\<lparr> error := e \<rparr>) = I s)"

text \<open>An operation that never rejects.\<close>

definition total :: "'a io \<Rightarrow> bool" where
  "total m = (\<forall>s. \<exists>x s'. m s = (Inr x, s'))"

text \<open>
  From position \<open>n\<close> of the log on, only git subcommands in \<open>V\<close> have been run
  (and nothing has been waited for). \<open>bringUpVerbs\<close> are the subcommands of
  initialisation and of the pull.
\<close>

definition onlyVerbs :: "string set \<Rightarrow> nat \<Rightarrow> world \<Rightarrow> bool" where
  "onlyVerbs V n s = (n \<le> length (trace s) \<and> (\<forall>e\<in>set (drop n (trace s)). verb e \<in> V))"

definition bringUpVerbs :: "string set" where
  "bringUpVerbs = {''clone'', ''init'', ''remote'', ''fetch'', ''checkout'', ''pull''}"

text \<open>An event that is a run of git with exit status 0.\<close>

definition succeeded :: "event \<Rightarrow> bool" where
  "succeeded e = (case e of Git _ None \<Rightarrow> True | _ \<Rightarrow> False)"

text \<open>Two worlds with the same mode, flags, branch and git environment.\<close>

definition sameControl :: "world \<Rightarrow> world \<Rightarrow> bool" where
  "sameControl s s' =
     (pending s' = pending s \<and> mode s' = mode s \<and> initialized s' = initialized s
      \<and> gitEnv s' = gitEnv s \<and> branch s' = branch s)"

text \<open>
  The last part of \<^verbatim>\<open>writeJson\<close> and of \<^verbatim>\<open>syncDirectory\<close>, which the two share
  word for word: stage, compare, commit, push, record the outcome.
\<close>

abbreviation syncTail :: "platform \<Rightarrow> string list \<Rightarrow> snapshot io" where
  "syncTail P ks \<equiv>
     andThen (stageFiles P ks) (\<lambda>_.
     andThen (hasStagedChanges P) (\<lambda>hasChanges.
     andThen (if hasChanges then commit P else ret ()) (\<lambda>_.
     andThen (gets pending) (\<lambda>pending'.
     andThen (pushWithRetry P (hasChanges \<or> pending')) (\<lambda>pushed.
     andThen
       (if \<not> pushed then modify (\<lambda>s. s\<lparr> mode := DEGRADED, pending := True \<rparr>)
        else modify (\<lambda>s. s\<lparr> mode := ACTIVE, pending := False, error := None \<rparr>)) (\<lambda>_.
     getState))))))"

text \<open>
  An assumption on the git executable: the subcommands the manager runs once it is
  initialised change neither the node at a path nor the directories above it.
  \<open>pinned p f\<close> says that these nodes are the ones \<open>f\<close> gives.
\<close>

definition syncVerbs :: "string set" where
  "syncVerbs = {''add'', ''diff'', ''rev-parse'', ''commit'', ''push'', ''pull''}"

definition gitKeeps :: "platform \<Rightarrow> path \<Rightarrow> bool" where
  "gitKeeps P p =
     (\<forall>h d c. (case args c of [] \<Rightarrow> False | v # _ \<Rightarrow> v \<in> syncVerbs) \<longrightarrow>
        (\<forall>q\<in>set (dirsTo p). lookup (snd (git P h d c)) q = lookup d q))"

definition pinned :: "path \<Rightarrow> (path \<Rightarrow> node option) \<Rightarrow> world \<Rightarrow> bool" where
  "pinned p f s = (\<forall>q\<in>set (dirsTo p). lookup (disk s) q = f q)"

subsection \<open>Sample platforms\<close>

text \<open>
  Concrete platforms on which the operations can be run: a codec that knows two
  documents, and git executables that fail in one chosen subcommand. The staged-diff
  check of each reports a difference.
\<close>

definition sampleDoc :: json where
  "sampleDoc = JObj [(''a'', JNum 1)]"

definition sampleText :: string where
  "sampleText =
     ''{'' @ [CHR 0x0A] @ ''  '' @ [CHR 0x22] @ ''a'' @ [CHR 0x22] @ '': 1'' @ [CHR 0x0A] @ ''}''"

definition toyStringify :: "json \<Rightarrow> string" where
  "toyStringify v = (if v = sampleDoc then sampleText else ''{}'')"

definition toyParse :: "string \<Rightarrow> string + json" where
  "toyParse t =
     (if t = sampleText then Inr sampleDoc
      else if t = ''{}'' then Inr (JObj [])
      else Inl ''Unexpected token'')"

definition credentials :: "(string \<times> string) list" where
  "credentials =
     [(''GITSTORE_GIT_URL'', ''https://example.org/store.git''),
      (''GITSTORE_GIT_USERNAME'', ''bot''),
      (''GITSTORE_GIT_TOKEN'', ''secret'')]"

definition failingAt :: "string list \<Rightarrow> event list \<Rightarrow> fs \<Rightarrow> git_call \<Rightarrow> string option \<times> fs" where
  "failingAt verbs h d c =
     (if list_ex (\<lambda>v. take 1 (args c) = [v]) verbs
      then Some (''Command failed: git '' @ joinWith '' '' (args c)) else None, d)"

definition node_platform :: "(string \<times> string) list \<Rightarrow> string list \<Rightarrow> platform" where
  "node_platform vars verbs =
     \<lparr> processCwd = [''app''], processEnv = vars, git = failingAt verbs,
       json_stringify = toyStringify, json_parse = toyParse, tempSuffix = ''Ab12Cd'' \<rparr>"

text \<open>A store that has been initialised with credentials; its clone holds nothing yet.\<close>

definition readyWorld :: "platform \<Rightarrow> world" where
  "readyWorld P =
     (constructor P [([''app''], Dir), ([''app'', ''data''], Dir),
                     ([''app'', ''data'', ''gitstore''], Dir)])
       \<lparr> mode := ACTIVE, initialized := True, gitEnv := Some (processEnv P) \<rparr>"


text \<open>A caller's session that uses every public operation.\<close>

definition sampleSession :: "op list" where
  "sampleSession =
     [SyncAll defaultSyncArgs, Write ''config.json'' sampleDoc, Read ''config.json'',
      SyncDirectory ''configs'', Materialize None, Initialize [''extra.json'']]"

section \<open>Properties\<close>

subsection \<open>Sequencing\<close>

lemma andThenE:
  assumes "andThen m k s = (r, s'')"
  obtains (throws) e where "m s = (Inl e, s'')" "r = Inl e"
        | (continues) x s' where "m s = (Inr x, s')" "k x s' = (r, s'')"
  using assms by (auto simp: andThen_def split: prod.splits sum.splits)

lemma tryCatchE:
  assumes "tryCatch m h s = (r, s'')"
  obtains (caught) e s' where "m s = (Inl e, s')" "h e s' = (r, s'')"
        | (passes) x where "m s = (Inr x, s'')" "r = Inr x"
  using assms by (auto simp: tryCatch_def split: prod.splits sum.splits)

lemmas io_defs = andThen_def tryCatch_def gets_def modify_def ret_def throw_def sleep_def
  getState_def

lemma runGit_result:
  assumes "git P (trace s) (disk s) \<lparr> args = as, cwd = dir, env = gitEnv s \<rparr> = (outcome, d')"
  shows "runGit P as dir s =
           ((case outcome of None \<Rightarrow> Inr () | Some m \<Rightarrow> Inl (GitError m)),
            s\<lparr> disk := d',
               trace := trace s @ [Git \<lparr> args = as, cwd = dir, env = gitEnv s \<rparr> outcome] \<rparr>)"
  using assms by (simp add: runGit_def split: option.splits)

subsection \<open>Push with retry\<close>

lemma push_failed_step:
  assumes "git P (trace s) (disk s) (pushCall P s) = (Some m, d')"
  shows "pushAttempts P (Suc n) s =
           pushAttempts P n
             (s\<lparr> disk := d', error := Some (errText (GitError m)),
                 trace := trace s @ [Git (pushCall P s) (Some m), Sleep 3000] \<rparr>)"
  using assms by (simp add: io_defs runGit_result pushCall_def)

lemma push_exhausted:
  assumes "\<forall>h d. fst (git P h d (pushCall P s)) \<noteq> None"
  shows "\<exists>m1 m2 m3 s'. pushWithRetry P True s = (Inr False, s')
       \<and> trace s' = trace s @ [Git (pushCall P s) (Some m1), Sleep 3000,
                               Git (pushCall P s) (Some m2), Sleep 3000,
                               Git (pushCall P s) (Some m3), Sleep 3000]
       \<and> error s' = Some (errText (GitError m3))"
proof -
  let ?c = "pushCall P s"
  have fails: "\<And>h d. \<exists>m d'. git P h d ?c = (Some m, d')"
    using assms by (metis eq_fst_iff not_None_eq)
  obtain m1 d1 where g1: "git P (trace s) (disk s) ?c = (Some m1, d1)"
    using fails by blast
  define s1 where "s1 = s\<lparr> disk := d1, error := Some (errText (GitError m1)),
                 trace := trace s @ [Git ?c (Some m1), Sleep 3000] \<rparr>"
  have c1: "pushCall P s1 = ?c" by (simp add: s1_def pushCall_def)
  obtain m2 d2 where g2: "git P (trace s1) (disk s1) (pushCall P s1) = (Some m2, d2)"
    using fails c1 by metis
  define s2 where "s2 = s1\<lparr> disk := d2, error := Some (errText (GitError m2)),
                 trace := trace s1 @ [Git ?c (Some m2), Sleep 3000] \<rparr>"
  have c2: "pushCall P s2 = ?c" by (simp add: s2_def s1_def pushCall_def)
  obtain m3 d3 where g3: "git P (trace s2) (disk s2) (pushCall P s2) = (Some m3, d3)"
    using fails c2 by metis
  define s3 where "s3 = s2\<lparr> disk := d3, error := Some (errText (GitError m3)),
                 trace := trace s2 @ [Git ?c (Some m3), Sleep 3000] \<rparr>"
  have "pushAttempts P (Suc (Suc (Suc 0))) s = pushAttempts P (Suc (Suc 0)) s1"
    using push_failed_step [OF g1] by (simp add: s1_def)
  also have "\<dots> = pushAttempts P (Suc 0) s2"
    using push_failed_step [OF g2] by (simp add: s2_def c1)
  also have "\<dots> = pushAttempts P 0 s3"
    using push_failed_step [OF g3] by (simp add: s3_def c2)
  finally have "pushWithRetry P True s = (Inr False, s3)"
    by (simp add: pushWithRetry_def numeral_3_eq_3 ret_def)
  moreover have "trace s3 = trace s @ [Git ?c (Some m1), Sleep 3000,
                               Git ?c (Some m2), Sleep 3000,
                               Git ?c (Some m3), Sleep 3000]"
    by (simp add: s3_def s2_def s1_def)
  moreover have "error s3 = Some (errText (GitError m3))" by (simp add: s3_def)
  ultimately show ?thesis by blast
qed

text \<open>
  Claim C3. A call that needs no push reports success and leaves the world, its event
  log included, untouched. When every run of the force-push fails, the call runs it
  exactly three times, each followed by a delay of 3000 ms, and resolves to
  \<^verbatim>\<open>false\<close> (it does not reject), with the message of the third failure in the error
  field. A failed attempt has stored its message before the next attempt starts.
\<close>

theorem pushWithRetry_three_attempts:
  "pushWithRetry P False s = (Inr True, s)
   \<and> ((\<forall>h d. fst (git P h d (pushCall P s)) \<noteq> None) \<longrightarrow>
        (\<exists>m1 m2 m3 s'. pushWithRetry P True s = (Inr False, s')
           \<and> trace s' = trace s @ [Git (pushCall P s) (Some m1), Sleep 3000,
                                   Git (pushCall P s) (Some m2), Sleep 3000,
                                   Git (pushCall P s) (Some m3), Sleep 3000]
           \<and> error s' = Some (errText (GitError m3))))
   \<and> (\<forall>m d' n. git P (trace s) (disk s) (pushCall P s) = (Some m, d') \<longrightarrow>
         pushAttempts P (Suc n) s =
           pushAttempts P n
             (s\<lparr> disk := d', error := Some (errText (GitError m)),
                 trace := trace s @ [Git (pushCall P s) (Some m), Sleep 3000] \<rparr>))"
  using push_exhausted [of P s] push_failed_step [of P s]
  by (simp add: pushWithRetry_def ret_def)

theorem pushWithRetry_three_attempts_witness:
  "\<exists>m1 m2 m3 s'.
      pushWithRetry (node_platform credentials [''push'']) True
        (readyWorld (node_platform credentials [''push''])) = (Inr False, s')
      \<and> trace s' =
          [Git (pushCall (node_platform credentials [''push''])
                  (readyWorld (node_platform credentials [''push'']))) (Some m1), Sleep 3000,
           Git (pushCall (node_platform credentials [''push''])
                  (readyWorld (node_platform credentials [''push'']))) (Some m2), Sleep 3000,
           Git (pushCall (node_platform credentials [''push''])
                  (readyWorld (node_platform credentials [''push'']))) (Some m3), Sleep 3000]
      \<and> error s' = Some (errText (GitError m3))"
proof -
  have fails: "\<forall>h d. fst (git (node_platform credentials [''push'']) h d
                 (pushCall (node_platform credentials [''push''])
                    (readyWorld (node_platform credentials [''push''])))) \<noteq> None"
    by (simp add: node_platform_def failingAt_def pushCall_def)
  have "trace (readyWorld (node_platform credentials [''push''])) = []"
    by (simp add: readyWorld_def constructor_def)
  with fails pushWithRetry_three_attempts
         [of "node_platform credentials [''push'']"
             "readyWorld (node_platform credentials [''push''])"]
  show ?thesis by simp
qed

subsection \<open>Files\<close>

lemma lookup_put:
  "lookup (put p n d) q = (if q = p \<and> q \<noteq> [] then Some n else lookup d q)"
  by (simp add: lookup_def put_def update_conv')

lemma lookup_root: "lookup d [] = Some Dir"
  by (simp add: lookup_def)

lemma lookup_fold_put_Dir:
  "lookup (fold (\<lambda>q. put q Dir) qs d) x = (if x \<in> set qs then Some Dir else lookup d x)"
proof (induction qs arbitrary: d)
  case Nil
  then show ?case by simp
next
  case (Cons q qs)
  then show ?case by (auto simp: lookup_put lookup_root)
qed

lemma fs_mkdir_lookup:
  assumes "fs_mkdir p d = Inr (u, d')"
  shows "lookup d' x = (if x \<in> set (dirsTo p) then Some Dir else lookup d x)"
    and "\<forall>q\<in>set (dirsTo p). \<not> isFile d q"
  using assms by (auto simp: fs_mkdir_def lookup_fold_put_Dir list_ex_iff split: if_splits)

lemma fs_mkdir_keeps:
  assumes "fs_mkdir p d = Inr (u, d')" "lookup d x = Some n"
  shows "lookup d' x = Some n"
proof (cases "x \<in> set (dirsTo p)")
  case True
  with fs_mkdir_lookup(2) [OF assms(1)] have "\<not> isFile d x" by blast
  with assms(2) have "n = Dir" by (cases n) (simp_all add: isFile_def)
  with True fs_mkdir_lookup(1) [OF assms(1)] show ?thesis by simp
next
  case False
  with fs_mkdir_lookup(1) [OF assms(1)] assms(2) show ?thesis by simp
qed

lemma onDiskE:
  assumes "onDisk f s = (r, s')"
  obtains (fails) e where "f (disk s) = Inl e" "r = Inl e" "s' = s"
        | (works) x d' where "f (disk s) = Inr (x, d')" "r = Inr x" "s' = s\<lparr>disk := d'\<rparr>"
  using assms by (auto simp: onDisk_def split: sum.splits)

lemma writeFile_Inr:
  assumes "writeFile p c s = (Inr u, s')"
  obtains d1 where "fs_mkdir (butlast p) (disk s) = Inr ((), d1)"
    "\<not> isDir d1 p" "isDir d1 (butlast p)" "s' = s\<lparr>disk := put p (File c) d1\<rparr>"
  using assms
  by (auto simp: writeFile_def fs_writeFile_def elim!: andThenE onDiskE split: if_splits)


lemma writeFile_settles:
  assumes "writeFile p c s = (Inr u, s')"
  shows "settled (disk s') p c"
proof -
  from assms obtain d1 where m: "fs_mkdir (butlast p) (disk s) = Inr ((), d1)"
    and nd: "\<not> isDir d1 p" and s': "s' = s\<lparr>disk := put p (File c) d1\<rparr>"
    by (rule writeFile_Inr)
  from nd have pne: "p \<noteq> []" by (auto simp: isDir_def lookup_def)
  have "\<forall>q\<in>set (dirsTo (butlast p)). q \<noteq> p"
  proof
    fix q assume "q \<in> set (dirsTo (butlast p))"
    then have "length q \<le> length (butlast p)" by (auto simp: dirsTo_def)
    with pne show "q \<noteq> p" by (cases p rule: rev_cases) auto
  qed
  with m pne show ?thesis
    by (auto simp: settled_def s' lookup_put fs_mkdir_lookup(1))
qed


subsection \<open>Source selection and materialisation\<close>

lemma pickSource_run:
  "pickSource P gp lp k s =
     (Inr (if mode s \<noteq> LOCAL \<and> existsSync (disk s) gp then Some gp
           else if existsSync (disk s) lp then Some lp
           else if existsSync (disk s) (examplePath P k) then Some (examplePath P k)
           else None), s)"
  by (simp add: pickSource_def io_defs)

lemma ensureInitialized_ready:
  assumes "initialized s"
  shows "ensureInitialized P fls s =
           getState (s\<lparr> files := (if fls = [] then files s else dedupe (files s @ fls)) \<rparr>)"
  using assms by (simp add: ensureInitialized_def io_defs)

lemma writeFile_Inl:
  assumes "writeFile p c s = (Inl e, s')"
  shows "\<exists>m. e = FsError m"
  using assms
  by (auto simp: writeFile_def fs_writeFile_def fs_mkdir_def elim!: andThenE onDiskE
           split: if_splits)

lemma writeFile_frame:
  assumes "writeFile p c s = (r, s')"
  shows "\<exists>d. s' = s\<lparr>disk := d\<rparr>"
  using assms
  by (auto simp: writeFile_def elim!: andThenE onDiskE intro: exI [of _ "disk s"])









subsection \<open>Stepping through an operation\<close>

lemma ret_run: "(ret x s = (r, s')) = (r = Inr x \<and> s' = s)"
  by (auto simp: ret_def)

lemma throw_run: "(throw e s = (r, s')) = (r = Inl e \<and> s' = s)"
  by (auto simp: throw_def)

lemma gets_run: "(gets f s = (r, s')) = (r = Inr (f s) \<and> s' = s)"
  by (auto simp: gets_def)

lemma modify_run: "(modify f s = (r, s')) = (r = Inr () \<and> s' = f s)"
  by (auto simp: modify_def)

lemma sleep_run: "(sleep n s = (r, s')) = (r = Inr () \<and> s' = s\<lparr>trace := trace s @ [Sleep n]\<rparr>)"
  by (auto simp: sleep_def)

lemma getState_run:
  "(getState s = (r, s')) =
     (r = Inr \<lparr> st_mode = mode s, st_pending = pending s, st_error = error s,
                 st_branch = branch s \<rparr> \<and> s' = s)"
  by (auto simp: getState_def)

lemma andThen_gets: "andThen (gets f) k s = k (f s) s"
  by (simp add: andThen_def gets_def)

lemma andThen_ret: "andThen (ret x) k s = k x s"
  by (simp add: andThen_def ret_def)

lemma andThen_modify: "andThen (modify f) k s = k () (f s)"
  by (simp add: andThen_def modify_def)

lemma andThen_throw: "andThen (throw e) k s = (Inl e, s)"
  by (simp add: andThen_def throw_def)

lemma andThen_sleep: "andThen (sleep n) k s = k () (s\<lparr>trace := trace s @ [Sleep n]\<rparr>)"
  by (simp add: andThen_def sleep_def)

lemmas io_runs = ret_run throw_run gets_run modify_run sleep_run getState_run
  andThen_gets andThen_ret andThen_modify andThen_throw andThen_sleep

lemma onDisk_frame:
  assumes "onDisk f s = (r, s')"
  shows "\<exists>d. s' = s\<lparr>disk := d\<rparr>"
  using assms by (auto elim!: onDiskE intro: exI [of _ "disk s"])

lemma copyPath_frame:
  assumes "copyPath a b s = (r, s')"
  shows "\<exists>d. s' = s\<lparr>disk := d\<rparr>"
  using assms
  by (auto simp: copyPath_def elim!: andThenE onDiskE intro: exI [of _ "disk s"])

lemma hoareI: "(\<And>s r s'. A s \<Longrightarrow> m s = (r, s') \<Longrightarrow> B s') \<Longrightarrow> hoare A m B"
  unfolding hoare_def by (metis prod.collapse)

lemma hoareD: "hoare A m B \<Longrightarrow> m s = (r, s') \<Longrightarrow> A s \<Longrightarrow> B s'"
  unfolding hoare_def by (metis snd_conv)

lemma hoare_andThen:
  assumes "hoare A m B" "\<And>x. hoare B (k x) C" "\<And>s. B s \<Longrightarrow> C s"
  shows "hoare A (andThen m k) C"
  by (rule hoareI) (auto elim!: andThenE dest: hoareD [OF assms(1)] hoareD [OF assms(2)] assms(3))

lemma keeps_andThen:
  assumes "hoare I m I" "\<And>x. hoare I (k x) I"
  shows "hoare I (andThen m k) I"
  using assms by (rule hoare_andThen)

lemma keeps_tryCatch:
  assumes "hoare I m I" "\<And>e. hoare I (h e) I"
  shows "hoare I (tryCatch m h) I"
  by (rule hoareI) (auto elim!: tryCatchE dest: hoareD [OF assms(1)] hoareD [OF assms(2)])

lemma hoare_if:
  assumes "c \<Longrightarrow> hoare A a B" "\<not> c \<Longrightarrow> hoare A b B"
  shows "hoare A (if c then a else b) B"
  using assms by simp

lemma hoare_pre:
  assumes "hoare A' m B" "\<And>s. A s \<Longrightarrow> A' s"
  shows "hoare A m B"
  using assms unfolding hoare_def by blast

lemma hoare_ret: "(\<And>s. A s \<Longrightarrow> B s) \<Longrightarrow> hoare A (ret x) B"
  by (simp add: hoare_def ret_def)

lemma hoare_throw: "(\<And>s. A s \<Longrightarrow> B s) \<Longrightarrow> hoare A (throw e) B"
  by (simp add: hoare_def throw_def)

lemma hoare_gets: "(\<And>s. A s \<Longrightarrow> B s) \<Longrightarrow> hoare A (gets f) B"
  by (simp add: hoare_def gets_def)

lemma hoare_getState: "(\<And>s. A s \<Longrightarrow> B s) \<Longrightarrow> hoare A getState B"
  by (simp add: hoare_def getState_def)

lemma hoare_modify: "(\<And>s. A s \<Longrightarrow> B (f s)) \<Longrightarrow> hoare A (modify f) B"
  by (simp add: hoare_def modify_def)

lemma hoare_onDisk:
  assumes "\<And>s d. A s \<Longrightarrow> B (s\<lparr>disk := d\<rparr>)" "\<And>s. A s \<Longrightarrow> B s"
  shows "hoare A (onDisk f) B"
  by (rule hoareI) (auto elim!: onDiskE intro: assms)

lemma hoare_gets_andThen:
  assumes "\<And>x. hoare (\<lambda>s. A s \<and> f s = x) (k x) B"
  shows "hoare A (andThen (gets f) k) B"
  using assms by (simp add: hoare_def andThen_gets)

lemmas keeps_rules = keeps_andThen keeps_tryCatch hoare_if hoare_ret hoare_throw hoare_gets
  hoare_getState hoare_modify hoare_onDisk

subsection \<open>Without credentials\<close>

lemma ensureInitialized_localOnly:
  assumes "ensureInitialized P fls s = (r, s')" "credentialsMissing P" "localOnly s"
  shows "localOnly s'"
  using assms
  by (auto simp: ensureInitialized_def credentialsMissing_def localOnly_def io_runs Let_def
        filter_empty_conv elim!: andThenE onDiskE split: if_splits)


lemma materialize_localOnly:
  assumes "materialize P k s = (r, s')" "localOnly s"
  shows "localOnly s'"
  using assms
  by (auto simp: materialize_def pickSource_run localOnly_def io_runs
        elim!: andThenE split: if_splits option.splits
        dest!: onDisk_frame copyPath_frame writeFile_frame)

lemma forEachFile_localOnly:
  assumes "forEachFile P ks s = (r, s')" "localOnly s"
  shows "localOnly s'"
  using assms
proof (induction ks arbitrary: s)
  case Nil
  then show ?case by (simp add: io_runs)
next
  case (Cons k ks)
  then show ?case
    by (auto elim!: andThenE dest: materialize_localOnly)
qed

lemma localOnly_updates:
  "localOnly (s\<lparr>disk := d\<rparr>) = localOnly s"
  "localOnly (s\<lparr>files := f\<rparr>) = localOnly s"
  "localOnly (s\<lparr>pending := b\<rparr>) = localOnly s"
  "localOnly (s\<lparr>error := e\<rparr>) = localOnly s"
  "localOnly (s\<lparr>initialized := i\<rparr>) = localOnly s"
  by (simp_all add: localOnly_def)

lemma localOnly_mode: "localOnly s \<Longrightarrow> mode s = LOCAL"
  by (simp add: localOnly_def)

lemma ensureWorkingCopies_localOnly:
  assumes "ensureWorkingCopies P fa s = (r, s')" "credentialsMissing P" "localOnly s"
  shows "localOnly s'"
proof -
  from assms(1) show ?thesis
    unfolding ensureWorkingCopies_def andThen_gets
  proof (cases rule: andThenE)
    case (throws e)
    with assms show ?thesis by (auto dest: ensureInitialized_localOnly)
  next
    case (continues x s1)
    with assms have "localOnly s1" by (auto dest: ensureInitialized_localOnly)
    with continues(2) show ?thesis
      by (auto simp: io_runs localOnly_mode elim!: andThenE dest: forEachFile_localOnly)
  qed
qed

lemma readJson_localOnly:
  assumes "readJson P k s = (r, s')" "credentialsMissing P" "localOnly s"
  shows "localOnly s'"
  using assms
  by (auto simp: readJson_def io_runs localOnly_updates
        elim!: andThenE dest!: onDisk_frame dest: ensureWorkingCopies_localOnly
        split: sum.splits)

lemma writeJson_localOnly:
  assumes "writeJson P k v s = (r, s')" "credentialsMissing P" "localOnly s"
  shows "localOnly s'"
proof -
  from assms(1) show ?thesis
    unfolding writeJson_def
  proof (cases rule: andThenE)
    case (throws e)
    with assms show ?thesis by (auto dest: ensureInitialized_localOnly)
  next
    case (continues x s1)
    with assms have "localOnly s1" by (auto dest: ensureInitialized_localOnly)
    with continues(2) show ?thesis
      by (auto simp: io_runs localOnly_updates localOnly_mode elim!: andThenE
            dest!: writeFile_frame)
  qed
qed

lemma syncDirectory_localOnly:
  assumes "syncDirectory P k s = (r, s')" "credentialsMissing P" "localOnly s"
  shows "localOnly s'"
proof -
  from assms(1) show ?thesis
    unfolding syncDirectory_def
  proof (cases rule: andThenE)
    case (throws e)
    with assms show ?thesis by (auto dest: ensureInitialized_localOnly)
  next
    case a: (continues x s1)
    with assms have l1: "localOnly s1" by (auto dest: ensureInitialized_localOnly)
    from a(2) show ?thesis
    proof (cases rule: andThenE)
      case (throws e)
      with assms l1 show ?thesis by (auto dest: ensureWorkingCopies_localOnly)
    next
      case b: (continues y s2)
      with assms l1 have "localOnly s2" by (auto dest: ensureWorkingCopies_localOnly)
      with b(2) show ?thesis
        by (auto simp: io_runs localOnly_updates localOnly_mode elim!: andThenE
              dest!: copyPath_frame split: if_splits)
    qed
  qed
qed


lemma syncAllInStore_localOnly:
  assumes "credentialsMissing P"
  shows "hoare localOnly (syncAllInStore P a) localOnly"
  unfolding syncAllInStore_def
  by (intro keeps_rules hoareI [of localOnly "ensureInitialized P _"]
        hoareI [of localOnly "ensureWorkingCopies P _"]
        hoareI [of localOnly "writeJson P _ _"] hoareI [of localOnly "syncDirectory P _"])
     (auto simp: localOnly_updates localOnly_def
        dest: ensureInitialized_localOnly [OF _ assms] ensureWorkingCopies_localOnly [OF _ assms]
          writeJson_localOnly [OF _ assms] syncDirectory_localOnly [OF _ assms])

lemma runOp_localOnly:
  assumes "credentialsMissing P" "localOnly s"
  shows "localOnly (runOp P s op)"
proof (cases op)
  case (Initialize fls)
  then show ?thesis
    using assms ensureInitialized_localOnly [of P fls s] by (cases "ensureInitialized P fls s") simp
next
  case (Materialize fa)
  then show ?thesis
    using assms ensureWorkingCopies_localOnly [of P fa s]
    by (cases "ensureWorkingCopies P fa s") simp
next
  case (Read k)
  then show ?thesis
    using assms readJson_localOnly [of P k s] by (cases "readJson P k s") simp
next
  case (Write k v)
  then show ?thesis
    using assms writeJson_localOnly [of P k v s] by (cases "writeJson P k v s") simp
next
  case (SyncDirectory k)
  then show ?thesis
    using assms syncDirectory_localOnly [of P k s] by (cases "syncDirectory P k s") simp
next
  case (SyncAll a)
  then show ?thesis
    using assms hoareD [OF syncAllInStore_localOnly, of P a s] by (cases "syncAllInStore P a s") simp
qed

lemma runOps_localOnly:
  assumes "credentialsMissing P" "localOnly s"
  shows "localOnly (runOps P ops s)"
  using assms(2) unfolding runOps_def
  by (induction ops arbitrary: s) (simp_all add: runOp_localOnly [OF assms(1)])

text \<open>
  Claim C1. When one of the three required environment variables is unset or empty,
  then after any sequence of public operations on a freshly constructed manager, on
  any disk and whatever the operations resolve or reject with, the mode is LOCAL and
  the log of external events is empty: git has never been run.
\<close>

theorem missing_credentials_stay_local:
  assumes "credentialsMissing P"
  shows "mode (runOps P ops (constructor P d)) = LOCAL
       \<and> trace (runOps P ops (constructor P d)) = []"
  using runOps_localOnly [OF assms, of "constructor P d" ops]
  by (simp add: localOnly_def constructor_def)

theorem missing_credentials_stay_local_witness:
  "credentialsMissing (node_platform [] [])
   \<and> mode (runOps (node_platform [] []) sampleSession (constructor (node_platform [] []) []))
       = LOCAL
   \<and> trace (runOps (node_platform [] []) sampleSession (constructor (node_platform [] []) []))
       = []"
proof -
  have "credentialsMissing (node_platform [] [])"
    by code_simp
  with missing_credentials_stay_local [of "node_platform [] []" sampleSession "[]"]
  show ?thesis by simp
qed

subsection \<open>The pending flag\<close>

lemma steadyD:
  assumes "steady I"
  shows "I (s\<lparr> disk := d \<rparr>) = I s" "I (s\<lparr> trace := t \<rparr>) = I s"
    "I (s\<lparr> askPassPath := a \<rparr>) = I s" "I (s\<lparr> gitEnv := g \<rparr>) = I s"
    "I (s\<lparr> files := f \<rparr>) = I s" "I (s\<lparr> error := e \<rparr>) = I s"
  using assms unfolding steady_def by blast+

lemma hoare_runGit:
  assumes "\<And>s d outcome. A s \<Longrightarrow>
            B (s\<lparr> disk := d,
                   trace := trace s @ [Git \<lparr> args = as, cwd = dir, env = gitEnv s \<rparr> outcome] \<rparr>)"
  shows "hoare A (runGit P as dir) B"
  by (rule hoareI) (auto simp: runGit_def Let_def split: prod.splits option.splits intro: assms)

lemma hoare_sleep:
  assumes "\<And>s. A s \<Longrightarrow> B (s\<lparr> trace := trace s @ [Sleep n] \<rparr>)"
  shows "hoare A (sleep n) B"
  by (rule hoareI) (auto simp: sleep_def intro: assms)

lemma steady_runGit: "steady I \<Longrightarrow> hoare I (runGit P as dir) I"
  by (rule hoare_runGit) (simp add: steadyD)

lemma steady_onDisk: "steady I \<Longrightarrow> hoare I (onDisk f) I"
  by (rule hoare_onDisk) (simp_all add: steadyD)

lemma steady_sleep: "steady I \<Longrightarrow> hoare I (sleep n) I"
  by (rule hoare_sleep) (simp add: steadyD)

lemma hoare_case_option:
  assumes "x = None \<Longrightarrow> hoare A a B" "\<And>y. x = Some y \<Longrightarrow> hoare A (b y) B"
  shows "hoare A (case x of None \<Rightarrow> a | Some y \<Rightarrow> b y) B"
  using assms by (cases x) simp_all

lemma hoare_case_sum:
  assumes "\<And>y. x = Inl y \<Longrightarrow> hoare A (a y) B" "\<And>y. x = Inr y \<Longrightarrow> hoare A (b y) B"
  shows "hoare A (case x of Inl y \<Rightarrow> a y | Inr y \<Rightarrow> b y) B"
  using assms by (cases x) simp_all

lemmas steady_rules = keeps_rules hoare_case_option hoare_case_sum

lemma steady_writeFile: "steady I \<Longrightarrow> hoare I (writeFile p c) I"
  unfolding writeFile_def by (intro keeps_andThen steady_onDisk)

lemma steady_copyPath: "steady I \<Longrightarrow> hoare I (copyPath a b) I"
  unfolding copyPath_def by (intro keeps_andThen steady_onDisk)

lemma steady_pullLatest: "steady I \<Longrightarrow> hoare I (pullLatest P) I"
  unfolding pullLatest_def by (intro keeps_rules steady_runGit) simp_all

lemma steady_checkoutBranch: "steady I \<Longrightarrow> hoare I (checkoutBranch P) I"
  unfolding checkoutBranch_def by (intro keeps_rules steady_runGit) simp_all

lemma steady_stageFiles: "steady I \<Longrightarrow> hoare I (stageFiles P fls) I"
  unfolding stageFiles_def by (rule steady_runGit)

lemma steady_hasStagedChanges: "steady I \<Longrightarrow> hoare I (hasStagedChanges P) I"
  unfolding hasStagedChanges_def by (intro keeps_rules steady_runGit) simp_all

lemma steady_hasHead: "steady I \<Longrightarrow> hoare I (hasHead P) I"
  unfolding hasHead_def by (intro keeps_rules steady_runGit) simp_all

lemma steady_commit: "steady I \<Longrightarrow> hoare I (commit P) I"
  unfolding commit_def by (intro keeps_rules steady_runGit steady_hasHead) simp_all

lemma steady_pushAttempts: "steady I \<Longrightarrow> hoare I (pushAttempts P n) I"
proof (induction n)
  case 0
  then show ?case by (simp add: hoare_ret)
next
  case (Suc n)
  then show ?case
    unfolding pushAttempts.simps
    by (intro keeps_rules steady_runGit steady_sleep) (simp_all add: steadyD)
qed

lemma steady_pushWithRetry: "steady I \<Longrightarrow> hoare I (pushWithRetry P b) I"
  unfolding pushWithRetry_def by (intro keeps_rules steady_pushAttempts) simp_all

lemma steady_prepareGitEnv: "steady I \<Longrightarrow> hoare I (prepareGitEnv P) I"
  unfolding prepareGitEnv_def by (intro keeps_rules steady_onDisk) (simp_all add: steadyD)

lemma steady_prepareRepository: "steady I \<Longrightarrow> hoare I (prepareRepository P) I"
  unfolding prepareRepository_def
  by (intro keeps_rules steady_onDisk steady_runGit steady_checkoutBranch steady_pullLatest)
     simp_all

lemma steady_pickSource: "hoare I (pickSource P g l k) I"
  by (simp add: hoare_def pickSource_run)

lemma steady_materialize: "steady I \<Longrightarrow> hoare I (materialize P k) I"
  unfolding materialize_def
  by (intro steady_rules steady_onDisk steady_copyPath steady_writeFile steady_pickSource)
     simp_all

lemma steady_forEachFile: "steady I \<Longrightarrow> hoare I (forEachFile P ks) I"
  by (induction ks) (auto intro!: keeps_rules steady_materialize)


lemma control_frame:
  assumes "\<And>I. steady I \<Longrightarrow> hoare I f I" "f s = (r, s')"
  shows "pending s' = pending s \<and> mode s' = mode s \<and> initialized s' = initialized s"
  using hoareD [OF assms(1) assms(2), of "\<lambda>x. pending x = pending s \<and> mode x = mode s
     \<and> initialized x = initialized s"]
  by (simp add: steady_def)

lemma prepareGitEnv_frame:
  assumes "prepareGitEnv P s = (r, s')"
  shows "pending s' = pending s \<and> mode s' = mode s \<and> initialized s' = initialized s"
  using control_frame [OF steady_prepareGitEnv assms] .

lemma prepareRepository_frame:
  assumes "prepareRepository P s = (r, s')"
  shows "pending s' = pending s \<and> mode s' = mode s \<and> initialized s' = initialized s"
  using control_frame [OF steady_prepareRepository assms] .

lemma hoare_tryCatch:
  assumes "hoare A m B" "\<And>e. hoare B (h e) C" "\<And>s. B s \<Longrightarrow> C s"
  shows "hoare A (tryCatch m h) C"
  by (rule hoareI) (auto elim!: tryCatchE dest: hoareD [OF assms(1)] hoareD [OF assms(2)] assms(3))

lemma hoare_andThen_total:
  assumes "hoare A m B" "total m" "\<And>x. hoare B (k x) C"
  shows "hoare A (andThen m k) C"
proof (rule hoareI)
  fix s r s' assume "A s" "andThen m k s = (r, s')"
  moreover obtain x s1 where "m s = (Inr x, s1)" using assms(2) unfolding total_def by blast
  ultimately show "C s'"
    using hoareD [OF assms(1)] hoareD [OF assms(3)] by (auto simp: andThen_def)
qed

lemma total_tryCatch:
  assumes "\<And>e. total (h e)"
  shows "total (tryCatch m h)"
  unfolding total_def tryCatch_def
proof
  fix s
  obtain r s1 where m: "m s = (r, s1)" by (cases "m s")
  show "\<exists>x s'. (case m s of (Inl e, s') \<Rightarrow> h e s' | (Inr x, s') \<Rightarrow> (Inr x, s')) = (Inr x, s')"
  proof (cases r)
    case (Inl e)
    with m assms [of e] show ?thesis by (simp add: total_def)
  next
    case (Inr x)
    with m show ?thesis by simp
  qed
qed

lemma total_basic: "total (modify f)" "total (ret x)" "total (gets g)" "total getState"
  by (simp_all add: total_def modify_def ret_def gets_def getState_def)

lemma ensureInitialized_consistent:
  "hoare consistent (ensureInitialized P fls) consistent"
proof -
  let ?N = "\<lambda>s. mode s = LOCAL \<and> \<not> pending s \<and> \<not> initialized s"
  let ?B = "\<lambda>s. \<not> pending s \<and> \<not> initialized s"
  have sN: "steady ?N" by (simp add: steady_def)
  have body: "hoare ?N
     (andThen (prepareGitEnv P) (\<lambda>ge.
      andThen (modify (\<lambda>s. s\<lparr> gitEnv := Some ge \<rparr>)) (\<lambda>_.
      andThen (prepareRepository P) (\<lambda>_.
      modify (\<lambda>s. s\<lparr> mode := ACTIVE, pending := False, error := None \<rparr>))))) ?B"
    by (intro hoare_andThen [where B = ?N] steady_prepareGitEnv [OF sN]
          steady_prepareRepository [OF sN] hoare_modify) simp_all
  have attempt: "hoare ?N
     (tryCatch
        (andThen (prepareGitEnv P) (\<lambda>ge.
         andThen (modify (\<lambda>s. s\<lparr> gitEnv := Some ge \<rparr>)) (\<lambda>_.
         andThen (prepareRepository P) (\<lambda>_.
         modify (\<lambda>s. s\<lparr> mode := ACTIVE, pending := False, error := None \<rparr>)))))
        (\<lambda>err. modify (\<lambda>s. s\<lparr> mode := LOCAL, error := Some (errText err) \<rparr>))) ?B"
    by (rule hoare_tryCatch [OF body]) (simp_all add: hoare_modify)
  have fresh: "hoare ?N
     (andThen (onDisk (fs_mkdir (baseDir P))) (\<lambda>_.
       andThen (onDisk (fs_mkdir (gitDir P))) (\<lambda>_.
       let missingEnv = filter (\<lambda>key. \<not> envSet P key) REQUIRED_ENV in
       if length missingEnv > 0 then
         andThen (modify (\<lambda>s. s\<lparr> mode := LOCAL,
             error := Some (''Missing env: '' @ joinWith '', '' missingEnv),
             initialized := True \<rparr>)) (\<lambda>_.
         getState)
       else
         andThen
           (tryCatch
              (andThen (prepareGitEnv P) (\<lambda>ge.
               andThen (modify (\<lambda>s. s\<lparr> gitEnv := Some ge \<rparr>)) (\<lambda>_.
               andThen (prepareRepository P) (\<lambda>_.
               modify (\<lambda>s. s\<lparr> mode := ACTIVE, pending := False, error := None \<rparr>)))))
              (\<lambda>err. modify (\<lambda>s. s\<lparr> mode := LOCAL, error := Some (errText err) \<rparr>))) (\<lambda>_.
         andThen (modify (\<lambda>s. s\<lparr> initialized := True \<rparr>)) (\<lambda>_.
         getState))))) consistent"
    unfolding Let_def
    apply (rule hoare_andThen [where B = ?N])
      apply (rule steady_onDisk [OF sN])
     apply (rule hoare_andThen [where B = ?N])
       apply (rule steady_onDisk [OF sN])
      apply (rule hoare_if)
       apply (rule hoare_andThen [where B = consistent])
         apply (rule hoare_modify, simp add: consistent_def)
        apply (rule hoare_getState, simp)
       apply simp
      apply (rule hoare_andThen_total [OF attempt])
       apply (intro total_tryCatch total_basic)
      apply (rule hoare_andThen [where B = consistent])
        apply (rule hoare_modify, simp add: consistent_def)
       apply (rule hoare_getState, simp)
      apply simp
     apply (simp add: consistent_def)
    apply (simp add: consistent_def)
    done
  show ?thesis
    unfolding ensureInitialized_def
    apply (rule hoare_andThen [where B = consistent])
      apply (intro keeps_rules; simp add: consistent_def)
     apply (rule hoare_gets_andThen)
     apply (rule hoare_if)
      apply (rule hoare_getState; simp)
     apply (rule hoare_pre [OF fresh])
     apply (auto simp: consistent_def)
    done
qed


lemma hoare_post:
  assumes "hoare A m B'" "\<And>s. B' s \<Longrightarrow> B s"
  shows "hoare A m B"
  using assms unfolding hoare_def by blast

lemma steady_remote: "steady (\<lambda>s. consistent s \<and> initialized s)"
  by (simp add: steady_def consistent_def)

lemma steady_consistent: "steady consistent"
  by (simp add: steady_def consistent_def)

lemma ensureWorkingCopies_consistent:
  "hoare consistent (ensureWorkingCopies P fa) consistent"
  unfolding ensureWorkingCopies_def
  apply (rule hoare_gets_andThen)
  apply (rule hoare_pre [where A' = consistent])
   apply (rule hoare_andThen [where B = consistent])
     apply (rule ensureInitialized_consistent)
    apply (rule hoare_gets_andThen)
    apply (rule hoare_andThen [where B = consistent])
      apply (rule hoare_if)
       apply (rule hoare_pre [where A' = "\<lambda>s. consistent s \<and> initialized s"])
        apply (rule hoare_tryCatch [where B = "\<lambda>s. consistent s \<and> initialized s"])
          apply (rule steady_pullLatest [OF steady_remote])
         apply (rule hoare_modify, simp add: consistent_def)
        apply simp
       apply (auto simp: consistent_def) [1]
      apply (rule hoare_ret, simp)
     apply (intro keeps_rules steady_forEachFile [OF steady_consistent]; simp)
    apply simp
   apply simp
  apply simp
  done

lemma readJson_consistent: "hoare consistent (readJson P k) consistent"
  unfolding readJson_def
  by (intro steady_rules ensureWorkingCopies_consistent steady_onDisk [OF steady_consistent])
     simp_all

lemma push_tail_remote:
  "hoare (\<lambda>s. consistent s \<and> initialized s)
     (andThen (stageFiles P ks) (\<lambda>_.
       andThen (hasStagedChanges P) (\<lambda>hasChanges.
       andThen (if hasChanges then commit P else ret ()) (\<lambda>_.
       andThen (gets pending) (\<lambda>pending'.
       andThen (pushWithRetry P (hasChanges \<or> pending')) (\<lambda>pushed.
       andThen
         (if \<not> pushed then modify (\<lambda>s. s\<lparr> mode := DEGRADED, pending := True \<rparr>)
          else modify (\<lambda>s. s\<lparr> mode := ACTIVE, pending := False, error := None \<rparr>)) (\<lambda>_.
       getState)))))))
     (\<lambda>s. consistent s \<and> initialized s)"
  by (intro keeps_rules steady_stageFiles [OF steady_remote]
        steady_hasStagedChanges [OF steady_remote] steady_commit [OF steady_remote]
        steady_pushWithRetry [OF steady_remote])
     (simp_all add: consistent_def)

lemma writeJson_consistent: "hoare consistent (writeJson P k v) consistent"
  unfolding writeJson_def
  apply (rule keeps_andThen [OF ensureInitialized_consistent])
  apply (rule keeps_andThen [OF steady_writeFile [OF steady_consistent]])
  apply (rule keeps_andThen [OF steady_writeFile [OF steady_consistent]])
  apply (rule hoare_gets_andThen)
  apply (rule hoare_if)
   apply (intro hoare_andThen [where B = consistent] hoare_modify hoare_getState)
     apply (simp_all add: consistent_def) [3]
  apply (rule hoare_pre [where A' = "\<lambda>s. consistent s \<and> initialized s"])
   apply (rule hoare_post [where B' = "\<lambda>s. consistent s \<and> initialized s"])
    apply (rule keeps_andThen [OF steady_writeFile [OF steady_remote]])
    apply (rule push_tail_remote)
   apply simp
  apply (auto simp: consistent_def)
  done

lemma syncDirectory_consistent: "hoare consistent (syncDirectory P k) consistent"
  unfolding syncDirectory_def
  apply (rule keeps_andThen [OF ensureInitialized_consistent])
  apply (rule keeps_andThen [OF ensureWorkingCopies_consistent])
  apply (rule keeps_andThen [OF hoare_gets])
   apply simp
  apply (rule hoare_if)
   apply (rule hoare_getState, simp)
  apply (rule keeps_andThen [OF steady_copyPath [OF steady_consistent]])
  apply (rule hoare_gets_andThen)
  apply (rule hoare_if)
   apply (intro hoare_andThen [where B = consistent] hoare_modify hoare_getState)
     apply (simp_all add: consistent_def) [3]
  apply (rule hoare_pre [where A' = "\<lambda>s. consistent s \<and> initialized s"])
   apply (rule hoare_post [where B' = "\<lambda>s. consistent s \<and> initialized s"])
    apply (rule keeps_andThen [OF steady_copyPath [OF steady_remote]])
    apply (rule push_tail_remote)
   apply simp
  apply (auto simp: consistent_def)
  done

lemma syncAllInStore_consistent: "hoare consistent (syncAllInStore P a) consistent"
  unfolding syncAllInStore_def
  by (intro keeps_rules ensureInitialized_consistent ensureWorkingCopies_consistent
        writeJson_consistent syncDirectory_consistent steady_onDisk [OF steady_consistent])
     (auto simp: consistent_def)

lemma runOp_consistent:
  assumes "consistent s"
  shows "consistent (runOp P s op)"
  using assms ensureInitialized_consistent [of P] ensureWorkingCopies_consistent [of P]
    readJson_consistent [of P] writeJson_consistent [of P] syncDirectory_consistent [of P]
    syncAllInStore_consistent [of P]
  by (cases op) (simp_all add: hoare_def)

lemma runOps_consistent:
  assumes "consistent s"
  shows "consistent (runOps P ops s)"
  using assms unfolding runOps_def
  by (induction ops arbitrary: s) (simp_all add: runOp_consistent)

text \<open>
  Claim C7. A freshly constructed manager is in LOCAL mode with the pending flag
  clear, and after any sequence of public operations, resolving or rejecting, a manager
  in LOCAL mode has the pending flag clear.
\<close>

theorem pending_only_when_remote:
  "mode (constructor P d) = LOCAL \<and> \<not> pending (constructor P d)
   \<and> (mode (runOps P ops (constructor P d)) = LOCAL
        \<longrightarrow> \<not> pending (runOps P ops (constructor P d)))"
  using runOps_consistent [of "constructor P d" P ops]
  by (auto simp: consistent_def constructor_def)

theorem pending_only_when_remote_witness:
  "mode (runOps (node_platform [] []) [Write ''config.json'' sampleDoc]
           (constructor (node_platform [] []) [])) = LOCAL
   \<and> \<not> pending (runOps (node_platform [] []) [Write ''config.json'' sampleDoc]
                  (constructor (node_platform [] []) []))"
proof -
  have "mode (runOps (node_platform [] []) [Write ''config.json'' sampleDoc]
           (constructor (node_platform [] []) [])) = LOCAL"
    by code_simp
  with pending_only_when_remote
         [of "node_platform [] []" "[]" "[Write ''config.json'' sampleDoc]"]
  show ?thesis by simp
qed

subsection \<open>Which git subcommands an operation runs\<close>

lemma onlyVerbs_updates:
  "onlyVerbs V n (s\<lparr> disk := d \<rparr>) = onlyVerbs V n s"
  "onlyVerbs V n (s\<lparr> files := f \<rparr>) = onlyVerbs V n s"
  "onlyVerbs V n (s\<lparr> askPassPath := a \<rparr>) = onlyVerbs V n s"
  "onlyVerbs V n (s\<lparr> gitEnv := g \<rparr>) = onlyVerbs V n s"
  "onlyVerbs V n (s\<lparr> error := e \<rparr>) = onlyVerbs V n s"
  "onlyVerbs V n (s\<lparr> mode := m \<rparr>) = onlyVerbs V n s"
  "onlyVerbs V n (s\<lparr> pending := p \<rparr>) = onlyVerbs V n s"
  "onlyVerbs V n (s\<lparr> initialized := i \<rparr>) = onlyVerbs V n s"
  by (simp_all add: onlyVerbs_def)

lemma onlyVerbs_runGit:
  assumes "v \<in> V"
  shows "hoare (onlyVerbs V n) (runGit P (v # as) dir) (onlyVerbs V n)"
  by (rule hoare_runGit) (auto simp: onlyVerbs_def verb_def assms)

lemma onlyVerbs_onDisk: "hoare (onlyVerbs V n) (onDisk f) (onlyVerbs V n)"
  by (rule hoare_onDisk) (simp_all add: onlyVerbs_updates)

lemma onlyVerbs_writeFile: "hoare (onlyVerbs V n) (writeFile p c) (onlyVerbs V n)"
  unfolding writeFile_def by (intro keeps_andThen onlyVerbs_onDisk)

lemma onlyVerbs_copyPath: "hoare (onlyVerbs V n) (copyPath a b) (onlyVerbs V n)"
  unfolding copyPath_def by (intro keeps_andThen onlyVerbs_onDisk)

lemma onlyVerbs_materialize: "hoare (onlyVerbs V n) (materialize P k) (onlyVerbs V n)"
  unfolding materialize_def
  by (intro steady_rules onlyVerbs_onDisk onlyVerbs_copyPath onlyVerbs_writeFile
        steady_pickSource) simp_all

lemma onlyVerbs_forEachFile: "hoare (onlyVerbs V n) (forEachFile P ks) (onlyVerbs V n)"
  by (induction ks) (auto intro!: keeps_rules onlyVerbs_materialize)

lemma bringUp_pullLatest:
  "hoare (onlyVerbs bringUpVerbs n) (pullLatest P) (onlyVerbs bringUpVerbs n)"
  unfolding pullLatest_def
  by (intro keeps_rules onlyVerbs_runGit) (simp_all add: bringUpVerbs_def)

lemma bringUp_checkoutBranch:
  "hoare (onlyVerbs bringUpVerbs n) (checkoutBranch P) (onlyVerbs bringUpVerbs n)"
  unfolding checkoutBranch_def
  by (intro keeps_rules onlyVerbs_runGit) (simp_all add: bringUpVerbs_def)

lemma bringUp_prepareRepository:
  "hoare (onlyVerbs bringUpVerbs n) (prepareRepository P) (onlyVerbs bringUpVerbs n)"
  unfolding prepareRepository_def
  by (intro keeps_rules onlyVerbs_runGit onlyVerbs_onDisk bringUp_pullLatest
        bringUp_checkoutBranch) (simp_all add: bringUpVerbs_def)

lemma bringUp_prepareGitEnv:
  "hoare (onlyVerbs V n) (prepareGitEnv P) (onlyVerbs V n)"
  unfolding prepareGitEnv_def
  by (intro keeps_rules onlyVerbs_onDisk) (simp_all add: onlyVerbs_updates)

lemma bringUp_ensureInitialized:
  "hoare (onlyVerbs bringUpVerbs n) (ensureInitialized P fls) (onlyVerbs bringUpVerbs n)"
  unfolding ensureInitialized_def Let_def
  by (intro keeps_rules onlyVerbs_onDisk bringUp_prepareGitEnv bringUp_prepareRepository)
     (simp_all add: onlyVerbs_updates)

lemma bringUp_ensureWorkingCopies:
  "hoare (onlyVerbs bringUpVerbs n) (ensureWorkingCopies P fa) (onlyVerbs bringUpVerbs n)"
  unfolding ensureWorkingCopies_def
  by (intro keeps_rules bringUp_ensureInitialized bringUp_pullLatest onlyVerbs_forEachFile)
     (simp_all add: onlyVerbs_updates)

lemma onlyVerbs_start: "onlyVerbs V (length (trace s)) s"
  by (simp add: onlyVerbs_def)

lemma onlyVerbs_newEvents:
  "onlyVerbs V (length (trace s)) s' \<Longrightarrow> \<forall>e\<in>set (newEvents s s'). verb e \<in> V"
  by (simp add: onlyVerbs_def newEvents_def)

text \<open>
  Claim C10. When initialisation and materialisation for a directory key resolve and
  the working path of the key does not exist afterwards, sync-directory resolves to the
  snapshot of the world that materialisation left and leaves exactly that world: disk
  (local mirror and clone included), event log, mode, pending and error are untouched
  after materialisation. The whole call has run no \<^verbatim>\<open>git add\<close>, no \<^verbatim>\<open>git commit\<close>
  and no \<^verbatim>\<open>git push\<close>.
\<close>

theorem syncDirectory_absent:
  assumes "ensureInitialized P [k] s = (Inr a, s1)"
    and "ensureWorkingCopies P (Some [k]) s1 = (Inr b, s2)"
    and "\<not> existsSync (disk s2) (resolveWorkingPath P k)"
  shows "syncDirectory P k s =
           (Inr \<lparr> st_mode = mode s2, st_pending = pending s2, st_error = error s2,
                   st_branch = branch s2 \<rparr>, s2)
         \<and> (\<forall>e\<in>set (newEvents s s2). verb e \<notin> {''add'', ''commit'', ''push''})"
proof -
  have "syncDirectory P k s =
           (Inr \<lparr> st_mode = mode s2, st_pending = pending s2, st_error = error s2,
                   st_branch = branch s2 \<rparr>, s2)"
    using assms by (simp add: syncDirectory_def andThen_def gets_def getState_def)
  moreover have "onlyVerbs bringUpVerbs (length (trace s)) s1"
    using hoareD [OF bringUp_ensureInitialized assms(1) onlyVerbs_start] .
  then have "onlyVerbs bringUpVerbs (length (trace s)) s2"
    using hoareD [OF bringUp_ensureWorkingCopies assms(2)] by blast
  then have "\<forall>e\<in>set (newEvents s s2). verb e \<in> bringUpVerbs"
    by (rule onlyVerbs_newEvents)
  then have "\<forall>e\<in>set (newEvents s s2). verb e \<notin> {''add'', ''commit'', ''push''}"
    by (auto simp: bringUpVerbs_def)
  ultimately show ?thesis by blast
qed

theorem syncDirectory_absent_witness:
  "\<not> existsSync
       (disk (snd (ensureWorkingCopies (node_platform [] []) (Some [''configs''])
                (snd (ensureInitialized (node_platform [] []) [''configs'']
                        (constructor (node_platform [] []) []))))))
       (resolveWorkingPath (node_platform [] []) ''configs'')
   \<and> snd (syncDirectory (node_platform [] []) ''configs''
              (constructor (node_platform [] []) []))
       = snd (ensureWorkingCopies (node_platform [] []) (Some [''configs''])
                (snd (ensureInitialized (node_platform [] []) [''configs'']
                        (constructor (node_platform [] []) []))))"
proof -
  let ?P = "node_platform [] []"
  let ?s = "constructor ?P []"
  let ?s1 = "snd (ensureInitialized ?P [''configs''] ?s)"
  let ?s2 = "snd (ensureWorkingCopies ?P (Some [''configs'']) ?s1)"
  have "case fst (ensureInitialized ?P [''configs''] ?s) of Inr _ \<Rightarrow> True | Inl _ \<Rightarrow> False"
    by code_simp
  then obtain a where i: "ensureInitialized ?P [''configs''] ?s = (Inr a, ?s1)"
    by (cases "ensureInitialized ?P [''configs''] ?s") (auto split: sum.splits)
  have "case fst (ensureWorkingCopies ?P (Some [''configs'']) ?s1) of
          Inr _ \<Rightarrow> True | Inl _ \<Rightarrow> False"
    by code_simp
  then obtain b where m: "ensureWorkingCopies ?P (Some [''configs'']) ?s1 = (Inr b, ?s2)"
    by (cases "ensureWorkingCopies ?P (Some [''configs'']) ?s1") (auto split: sum.splits)
  have absent: "\<not> existsSync (disk ?s2) (resolveWorkingPath ?P ''configs'')"
    by code_simp
  from syncDirectory_absent [OF i m absent] absent show ?thesis by simp
qed

subsection \<open>The events of staging, committing and pushing\<close>

lemma sameControl_refl: "sameControl s s"
  by (simp add: sameControl_def)

lemma sameControl_trans: "sameControl s s1 \<Longrightarrow> sameControl s1 s2 \<Longrightarrow> sameControl s s2"
  by (simp add: sameControl_def)

lemma runGit_shape:
  assumes "runGit P (v # as) dir s = (r, s')"
  shows "\<exists>e. trace s' = trace s @ [e] \<and> verb e = v \<and> sameControl s s' \<and> error s' = error s
           \<and> (succeeded e \<longleftrightarrow> r = Inr ()) \<and> (\<exists>m. r = Inl (GitError m) \<or> r = Inr ())"
proof -
  obtain outcome d' where g:
    "git P (trace s) (disk s) \<lparr> args = v # as, cwd = dir, env = gitEnv s \<rparr> = (outcome, d')"
    by (cases "git P (trace s) (disk s) \<lparr> args = v # as, cwd = dir, env = gitEnv s \<rparr>")
  from assms runGit_result [OF g] show ?thesis
    by (cases outcome) (auto simp: verb_def succeeded_def sameControl_def)
qed

lemma hasStagedChanges_shape:
  assumes "hasStagedChanges P s = (r, s')"
  shows "\<exists>e. trace s' = trace s @ [e] \<and> verb e = ''diff'' \<and> sameControl s s'
           \<and> error s' = error s \<and> r = Inr (\<not> succeeded e)"
proof -
  obtain r1 s1 where g: "runGit P [''diff'', ''--cached'', ''--quiet''] (gitDir P) s = (r1, s1)"
    by (cases "runGit P [''diff'', ''--cached'', ''--quiet''] (gitDir P) s")
  from runGit_shape [OF g] assms g show ?thesis
    by (auto simp: hasStagedChanges_def tryCatch_def andThen_def ret_def)
qed

lemma hasHead_shape:
  assumes "hasHead P s = (r, s')"
  shows "\<exists>e b. trace s' = trace s @ [e] \<and> verb e = ''rev-parse'' \<and> sameControl s s'
           \<and> error s' = error s \<and> r = Inr b"
proof -
  obtain r1 s1 where g: "runGit P [''rev-parse'', ''--verify'', ''HEAD''] (gitDir P) s = (r1, s1)"
    by (cases "runGit P [''rev-parse'', ''--verify'', ''HEAD''] (gitDir P) s")
  from runGit_shape [OF g] assms g show ?thesis
    by (auto simp: hasHead_def tryCatch_def andThen_def ret_def)
qed

lemma commit_shape:
  assumes "commit P s = (r, s')"
  shows "\<exists>evs. trace s' = trace s @ evs \<and> sameControl s s' \<and> error s' = error s
           \<and> (\<forall>e\<in>set evs. verb e = ''rev-parse'' \<or> verb e = ''commit'')
           \<and> (\<exists>m. r = Inl (GitError m) \<or> r = Inr ())"
proof -
  from assms obtain b s1 where h: "hasHead P s = (Inr b, s1)"
    and c: "(if b then runGit P [''commit'', ''--amend'', ''--no-edit'', ''--allow-empty''] (gitDir P)
             else runGit P [''commit'', ''-m'', ''gitstore: init data''] (gitDir P)) s1 = (r, s')"
    unfolding commit_def
    by (cases "hasHead P s") (auto simp: andThen_def dest: hasHead_shape split: sum.splits)
  from hasHead_shape [OF h] obtain e1 where
    e1: "trace s1 = trace s @ [e1]" "verb e1 = ''rev-parse''" "sameControl s s1" "error s1 = error s"
    by blast
  from c obtain as where c': "runGit P (''commit'' # as) (gitDir P) s1 = (r, s')"
    by (cases b) auto
  from runGit_shape [OF c'] obtain e2 where
    e2: "trace s' = trace s1 @ [e2]" "verb e2 = ''commit''" "sameControl s1 s'" "error s' = error s1"
      "\<exists>m. r = Inl (GitError m) \<or> r = Inr ()"
    by blast
  from e1 e2 have "trace s' = trace s @ [e1, e2]" by simp
  with e1 e2 show ?thesis
    by (intro exI [of _ "[e1, e2]"]) (auto intro: sameControl_trans)
qed


lemma push_ok_step:
  assumes "git P (trace s) (disk s) (pushCall P s) = (None, d')"
  shows "pushAttempts P (Suc n) s =
           (Inr True, s\<lparr> disk := d', trace := trace s @ [Git (pushCall P s) None] \<rparr>)"
  using assms by (simp add: io_defs runGit_result pushCall_def)

lemma pushAttempts_step:
  assumes "pushAttempts P (Suc n) s = (r, s')"
  obtains (ok) d' where "r = Inr True"
      "s' = s\<lparr> disk := d', trace := trace s @ [Git (pushCall P s) None] \<rparr>"
    | (retry) m d' where
      "pushAttempts P n
         (s\<lparr> disk := d', error := Some (errText (GitError m)),
             trace := trace s @ [Git (pushCall P s) (Some m), Sleep 3000] \<rparr>) = (r, s')"
proof -
  obtain outcome d' where g: "git P (trace s) (disk s) (pushCall P s) = (outcome, d')"
    by (cases "git P (trace s) (disk s) (pushCall P s)")
  show ?thesis
  proof (cases outcome)
    case None
    with g assms push_ok_step [of P s d' n] ok show ?thesis by simp
  next
    case (Some m)
    with g assms push_failed_step [of P s m d' n] retry show ?thesis by simp
  qed
qed

lemma pushAttempts_shape:
  assumes "pushAttempts P n s = (r, s')"
  shows "\<exists>evs ok. trace s' = trace s @ evs \<and> sameControl s s' \<and> r = Inr ok
           \<and> (\<forall>e\<in>set evs. verb e = ''push'' \<or> e = Sleep 3000)
           \<and> ((\<exists>e\<in>set evs. verb e = ''push'') \<longleftrightarrow> 0 < n)
           \<and> (ok \<longleftrightarrow> (\<exists>e\<in>set evs. verb e = ''push'' \<and> succeeded e))"
  using assms
proof (induction n arbitrary: s)
  case 0
  then show ?case by (auto simp: ret_def sameControl_refl)
next
  case (Suc n)
  from Suc.prems show ?case
  proof (cases rule: pushAttempts_step)
    case (ok d')
    then show ?thesis
      by (intro exI [of _ "[Git (pushCall P s) None]"] exI [of _ True])
         (simp add: sameControl_def verb_def pushCall_def succeeded_def)
  next
    case (retry m d')
    let ?s1 = "s\<lparr> disk := d', error := Some (errText (GitError m)),
             trace := trace s @ [Git (pushCall P s) (Some m), Sleep 3000] \<rparr>"
    from Suc.IH [OF retry] obtain evs ok where
      t: "trace s' = trace ?s1 @ evs" and c: "sameControl ?s1 s'" and r: "r = Inr ok"
      and v: "\<forall>e\<in>set evs. verb e = ''push'' \<or> e = Sleep 3000"
      and k: "ok \<longleftrightarrow> (\<exists>e\<in>set evs. verb e = ''push'' \<and> succeeded e)"
      by blast
    show ?thesis
      using t c r v k
      by (intro exI [of _ "Git (pushCall P s) (Some m) # Sleep 3000 # evs"] exI [of _ ok])
         (auto simp: sameControl_def verb_def pushCall_def succeeded_def)
  qed
qed

lemma pushAttempts_exhausted:
  assumes "pushAttempts P (Suc (Suc (Suc 0))) s = (Inr False, s')"
  shows "\<exists>m1 m2 m3.
           trace s' = trace s @ [Git (pushCall P s) (Some m1), Sleep 3000,
                                 Git (pushCall P s) (Some m2), Sleep 3000,
                                 Git (pushCall P s) (Some m3), Sleep 3000]
           \<and> error s' = Some (errText (GitError m3))"
  using assms
proof (cases rule: pushAttempts_step)
  case (ok d')
  then show ?thesis by simp
next
  case a: (retry m1 d1)
  from a show ?thesis
  proof (cases rule: pushAttempts_step)
    case (ok d')
    then show ?thesis by simp
  next
    case b: (retry m2 d2)
    from b show ?thesis
    proof (cases rule: pushAttempts_step)
      case (ok d')
      then show ?thesis by simp
    next
      case c: (retry m3 d3)
      then show ?thesis
        by (intro exI [of _ m1] exI [of _ m2] exI [of _ m3])
           (auto simp: ret_def pushCall_def)
    qed
  qed
qed

lemma pushWithRetry_shape:
  assumes "pushWithRetry P b s = (r, s')"
  shows "\<exists>evs ok. trace s' = trace s @ evs \<and> sameControl s s' \<and> r = Inr ok
           \<and> (\<forall>e\<in>set evs. verb e = ''push'' \<or> e = Sleep 3000)
           \<and> ((\<exists>e\<in>set evs. verb e = ''push'') \<longleftrightarrow> b)
           \<and> (ok \<longleftrightarrow> \<not> b \<or> (\<exists>e\<in>set evs. verb e = ''push'' \<and> succeeded e))
           \<and> (\<not> ok \<longrightarrow> (\<exists>m1 m2 m3.
                 evs = [Git (pushCall P s) (Some m1), Sleep 3000,
                        Git (pushCall P s) (Some m2), Sleep 3000,
                        Git (pushCall P s) (Some m3), Sleep 3000]
                 \<and> error s' = Some (errText (GitError m3))))"
proof (cases b)
  case False
  with assms show ?thesis
    by (intro exI [of _ "[]"] exI [of _ True]) (simp add: pushWithRetry_def ret_def sameControl_refl)
next
  case True
  with assms have run: "pushAttempts P (Suc (Suc (Suc 0))) s = (r, s')"
    by (simp add: pushWithRetry_def numeral_3_eq_3)
  from pushAttempts_shape [OF run] obtain evs ok where
    t: "trace s' = trace s @ evs" and c: "sameControl s s'" and r: "r = Inr ok"
    and v: "\<forall>e\<in>set evs. verb e = ''push'' \<or> e = Sleep 3000"
    and x: "\<exists>e\<in>set evs. verb e = ''push''"
    and k: "ok \<longleftrightarrow> (\<exists>e\<in>set evs. verb e = ''push'' \<and> succeeded e)"
    by auto
  have "\<not> ok \<longrightarrow> (\<exists>m1 m2 m3.
                 evs = [Git (pushCall P s) (Some m1), Sleep 3000,
                        Git (pushCall P s) (Some m2), Sleep 3000,
                        Git (pushCall P s) (Some m3), Sleep 3000]
                 \<and> error s' = Some (errText (GitError m3)))"
  proof
    assume "\<not> ok"
    with run r have "pushAttempts P (Suc (Suc (Suc 0))) s = (Inr False, s')" by simp
    from pushAttempts_exhausted [OF this] t show "\<exists>m1 m2 m3.
                 evs = [Git (pushCall P s) (Some m1), Sleep 3000,
                        Git (pushCall P s) (Some m2), Sleep 3000,
                        Git (pushCall P s) (Some m3), Sleep 3000]
                 \<and> error s' = Some (errText (GitError m3))"
      by auto
  qed
  with t c r v x k True show ?thesis by blast
qed


lemma pushCall_sameControl: "sameControl s s' \<Longrightarrow> pushCall P s' = pushCall P s"
  by (simp add: sameControl_def pushCall_def)

lemma tail_cases:
  assumes "syncTail P ks s = (r, s')"
  obtains
    (addFailed) e1 m where "trace s' = trace s @ [e1]" "verb e1 = ''add''" "r = Inl (GitError m)"
  | (commitFailed) e1 e2 cs m where "trace s' = trace s @ e1 # e2 # cs"
      "verb e1 = ''add''" "verb e2 = ''diff''" "\<not> succeeded e2"
      "\<forall>e\<in>set cs. verb e = ''rev-parse'' \<or> verb e = ''commit''" "r = Inl (GitError m)"
  | (pushed) e1 e2 cs ps ok where "trace s' = trace s @ e1 # e2 # cs @ ps"
      "verb e1 = ''add''" "verb e2 = ''diff''" "succeeded e2 \<longrightarrow> cs = []"
      "\<forall>e\<in>set cs. verb e = ''rev-parse'' \<or> verb e = ''commit''"
      "\<forall>e\<in>set ps. verb e = ''push'' \<or> e = Sleep 3000"
      "(\<exists>e\<in>set ps. verb e = ''push'') \<longleftrightarrow> (\<not> succeeded e2 \<or> pending s)"
      "ok \<longleftrightarrow> \<not> (\<not> succeeded e2 \<or> pending s) \<or> (\<exists>e\<in>set ps. verb e = ''push'' \<and> succeeded e)"
      "\<not> ok \<longrightarrow> (\<exists>m1 m2 m3.
                 ps = [Git (pushCall P s) (Some m1), Sleep 3000,
                       Git (pushCall P s) (Some m2), Sleep 3000,
                       Git (pushCall P s) (Some m3), Sleep 3000]
                 \<and> error s' = Some (errText (GitError m3)))"
      "r = Inr \<lparr> st_mode = mode s', st_pending = pending s', st_error = error s',
                  st_branch = branch s' \<rparr>"
      "mode s' = (if ok then ACTIVE else DEGRADED)" "pending s' = (\<not> ok)"
      "ok \<longrightarrow> error s' = None" "initialized s' = initialized s" "branch s' = branch s"
proof -
  from assms show ?thesis
  proof (cases rule: andThenE)
    case (throws e)
    from runGit_shape [OF throws(1) [unfolded stageFiles_def]] throws(2) addFailed
    show ?thesis by auto
  next
    case a: (continues u s1)
    from runGit_shape [OF a(1) [unfolded stageFiles_def]] obtain e1 where
      e1: "trace s1 = trace s @ [e1]" "verb e1 = ''add''" "sameControl s s1"
      by blast
    obtain rh s2 where h: "hasStagedChanges P s1 = (rh, s2)"
      by (cases "hasStagedChanges P s1")
    from hasStagedChanges_shape [OF h] obtain e2 where
      e2: "trace s2 = trace s1 @ [e2]" "verb e2 = ''diff''" "sameControl s1 s2"
        "rh = Inr (\<not> succeeded e2)"
      by blast
    from a(2) h e2(4) have rest:
      "andThen (if \<not> succeeded e2 then commit P else ret ()) (\<lambda>_.
       andThen (gets pending) (\<lambda>pending'.
       andThen (pushWithRetry P (\<not> succeeded e2 \<or> pending')) (\<lambda>pushed.
       andThen
         (if \<not> pushed then modify (\<lambda>s. s\<lparr> mode := DEGRADED, pending := True \<rparr>)
          else modify (\<lambda>s. s\<lparr> mode := ACTIVE, pending := False, error := None \<rparr>)) (\<lambda>_.
       getState)))) s2 = (r, s')"
      by (simp add: andThen_def)
    from rest show ?thesis
    proof (cases rule: andThenE)
      case (throws e)
      then have c: "commit P s2 = (Inl e, s')" and ns: "\<not> succeeded e2"
        by (auto simp: ret_def split: if_splits)
      from commit_shape [OF c] obtain cs m where
        "trace s' = trace s2 @ cs" "\<forall>e\<in>set cs. verb e = ''rev-parse'' \<or> verb e = ''commit''"
        "e = GitError m"
        by auto
      with e1 e2 ns throws(2) commitFailed [of e1 e2 cs m] show ?thesis by simp
    next
      case b: (continues u2 s3)
      have "\<exists>cs. trace s3 = trace s2 @ cs \<and> sameControl s2 s3
              \<and> (\<forall>e\<in>set cs. verb e = ''rev-parse'' \<or> verb e = ''commit'')
              \<and> (succeeded e2 \<longrightarrow> cs = [])"
      proof (cases "succeeded e2")
        case True
        with b(1) show ?thesis by (simp add: ret_def sameControl_refl)
      next
        case False
        with b(1) commit_shape [of P s2 "Inr u2" s3] show ?thesis by auto
      qed
      then obtain cs where cs: "trace s3 = trace s2 @ cs" "sameControl s2 s3"
        "\<forall>e\<in>set cs. verb e = ''rev-parse'' \<or> verb e = ''commit''" "succeeded e2 \<longrightarrow> cs = []"
        by blast
      have c03: "sameControl s s3"
        using e1(3) e2(3) cs(2) by (blast intro: sameControl_trans)
      then have p3: "pending s3 = pending s" by (simp add: sameControl_def)
      obtain rp s4 where p: "pushWithRetry P (\<not> succeeded e2 \<or> pending s) s3 = (rp, s4)"
        by (cases "pushWithRetry P (\<not> succeeded e2 \<or> pending s) s3")
      from pushWithRetry_shape [OF p] obtain ps ok where
        ps: "trace s4 = trace s3 @ ps" "sameControl s3 s4" "rp = Inr ok"
          "\<forall>e\<in>set ps. verb e = ''push'' \<or> e = Sleep 3000"
          "(\<exists>e\<in>set ps. verb e = ''push'') \<longleftrightarrow> (\<not> succeeded e2 \<or> pending s)"
          "ok \<longleftrightarrow> \<not> (\<not> succeeded e2 \<or> pending s)
                  \<or> (\<exists>e\<in>set ps. verb e = ''push'' \<and> succeeded e)"
          "\<not> ok \<longrightarrow> (\<exists>m1 m2 m3.
                 ps = [Git (pushCall P s3) (Some m1), Sleep 3000,
                       Git (pushCall P s3) (Some m2), Sleep 3000,
                       Git (pushCall P s3) (Some m3), Sleep 3000]
                 \<and> error s4 = Some (errText (GitError m3)))"
        by blast
      from b(2) p ps(3) p3 have fin:
        "andThen
           (if \<not> ok then modify (\<lambda>s. s\<lparr> mode := DEGRADED, pending := True \<rparr>)
            else modify (\<lambda>s. s\<lparr> mode := ACTIVE, pending := False, error := None \<rparr>))
           (\<lambda>_. getState) s4 = (r, s')"
        by (simp add: andThen_def gets_def)
      have "s' = (if ok then s4\<lparr> mode := ACTIVE, pending := False, error := None \<rparr>
                      else s4\<lparr> mode := DEGRADED, pending := True \<rparr>)
         \<and> r = Inr \<lparr> st_mode = mode s', st_pending = pending s', st_error = error s',
                  st_branch = branch s' \<rparr>"
        using fin by (cases ok) (auto simp: andThen_def modify_def getState_def)
      then have s': "s' = (if ok then s4\<lparr> mode := ACTIVE, pending := False, error := None \<rparr>
                      else s4\<lparr> mode := DEGRADED, pending := True \<rparr>)"
        and r: "r = Inr \<lparr> st_mode = mode s', st_pending = pending s', st_error = error s',
                  st_branch = branch s' \<rparr>"
        by blast+
      have i4: "initialized s4 = initialized s" "branch s4 = branch s"
        using c03 ps(2) by (simp_all add: sameControl_def)
      show ?thesis
        by (rule pushed [of e1 e2 cs ps ok])
           (use e1 e2 cs ps s' r i4 pushCall_sameControl [OF c03, of P] in
             \<open>simp_all split: if_splits\<close>)
    qed
  qed
qed


lemma pinned_updates:
  "pinned p f (s\<lparr> trace := t \<rparr>) = pinned p f s"
  "pinned p f (s\<lparr> error := e \<rparr>) = pinned p f s"
  "pinned p f (s\<lparr> mode := m \<rparr>) = pinned p f s"
  "pinned p f (s\<lparr> pending := b \<rparr>) = pinned p f s"
  "pinned p f (s\<lparr> files := fl \<rparr>) = pinned p f s"
  by (simp_all add: pinned_def)

lemma pinned_runGit:
  assumes "gitKeeps P p" "v \<in> syncVerbs"
  shows "hoare (pinned p f) (runGit P (v # as) dir) (pinned p f)"
proof (rule hoareI)
  fix s r s' assume pin: "pinned p f s" and run: "runGit P (v # as) dir s = (r, s')"
  let ?c = "\<lparr> args = v # as, cwd = dir, env = gitEnv s \<rparr>"
  have "disk s' = snd (git P (trace s) (disk s) ?c)"
    using run by (auto simp: runGit_def Let_def split: prod.splits option.splits)
  moreover have "\<forall>q\<in>set (dirsTo p). lookup (snd (git P (trace s) (disk s) ?c)) q = lookup (disk s) q"
    using assms unfolding gitKeeps_def by (metis (no_types, lifting) git_call.select_convs(1) list.simps(5))
  ultimately show "pinned p f s'" using pin by (simp add: pinned_def)
qed

lemma pinned_syncTail:
  assumes "gitKeeps P p"
  shows "hoare (pinned p f) (syncTail P ks) (pinned p f)"
proof -
  note git = pinned_runGit [OF assms]
  have push: "hoare (pinned p f) (pushAttempts P n) (pinned p f)" for n
    by (induction n)
       (auto intro!: keeps_rules git hoare_sleep simp: pinned_updates syncVerbs_def)
  show ?thesis
    unfolding stageFiles_def hasStagedChanges_def commit_def hasHead_def pushWithRetry_def
    by (intro keeps_rules git push) (simp_all add: pinned_updates syncVerbs_def)
qed

lemma pinned_pullLatest:
  assumes "gitKeeps P p"
  shows "hoare (pinned p f) (pullLatest P) (pinned p f)"
  unfolding pullLatest_def
  by (intro keeps_rules pinned_runGit [OF assms]) (simp_all add: syncVerbs_def)

lemma in_dirsTo: "q \<in> set (dirsTo p) \<longleftrightarrow> (\<exists>n. 1 \<le> n \<and> n \<le> length p \<and> q = take n p)"
proof
  assume "q \<in> set (dirsTo p)"
  then obtain n where "n \<in> set [1..<Suc (length p)]" "q = take n p"
    unfolding dirsTo_def by auto
  then show "\<exists>n. 1 \<le> n \<and> n \<le> length p \<and> q = take n p"
    by (intro exI [of _ n]) auto
next
  assume "\<exists>n. 1 \<le> n \<and> n \<le> length p \<and> q = take n p"
  then obtain n where "1 \<le> n" "n \<le> length p" "q = take n p" by blast
  then have "n \<in> set [1..<Suc (length p)]" by auto
  with \<open>q = take n p\<close> show "q \<in> set (dirsTo p)"
    unfolding dirsTo_def by (metis (no_types, lifting) image_eqI list.set_map)
qed

lemma dirsTo_shorter: "q \<in> set (dirsTo p) \<Longrightarrow> length q \<le> length p"
  by (auto simp: in_dirsTo)

lemma dirsTo_self: "p \<noteq> [] \<Longrightarrow> p \<in> set (dirsTo p)"
  unfolding in_dirsTo by (intro exI [of _ "length p"]) (simp add: Suc_leI)

lemma dirsTo_butlast: "set (dirsTo (butlast p)) \<subseteq> set (dirsTo p)"
proof
  fix q assume "q \<in> set (dirsTo (butlast p))"
  then obtain n where n: "1 \<le> n" "n \<le> length (butlast p)" "q = take n (butlast p)"
    unfolding in_dirsTo by blast
  then have less: "n < length p" by simp
  with n have "q = take n p" by (simp add: take_butlast)
  with n less show "q \<in> set (dirsTo p)"
    unfolding in_dirsTo by (intro exI [of _ n]) simp
qed

lemma settled_pinned:
  assumes "pinned p (lookup d) s"
  shows "settled (disk s) p c = settled d p c"
proof -
  note sub = dirsTo_butlast [of p]
  note self = dirsTo_self [of p]
  show ?thesis
  proof (cases "p = []")
    case True
    then show ?thesis by (simp add: settled_def lookup_def)
  next
    case False
    with self sub assms show ?thesis
      unfolding settled_def pinned_def by (metis subsetD)
  qed
qed


lemma writeFile_keeps_settled:
  assumes "writeFile q c' s = (Inr u, s')" "settled (disk s) p c" "q = p \<longrightarrow> c' = c"
  shows "settled (disk s') p c"
proof -
  from assms(1) obtain d1 where m: "fs_mkdir (butlast q) (disk s) = Inr ((), d1)"
    and nd: "\<not> isDir d1 q" and s': "s' = s\<lparr>disk := put q (File c') d1\<rparr>"
    by (rule writeFile_Inr)
  from nd have qne: "q \<noteq> []" by (auto simp: isDir_def lookup_def)
  have there: "lookup (put q (File c') d1) p = Some (File c)"
  proof (cases "p = q")
    case True
    with assms(3) qne show ?thesis by (simp add: lookup_put)
  next
    case False
    with fs_mkdir_keeps [OF m] assms(2) show ?thesis by (simp add: lookup_put settled_def)
  qed
  have dirs: "lookup (put q (File c') d1) a = Some Dir" if "a \<in> set (dirsTo (butlast p))" for a
  proof -
    from that assms(2) have "lookup (disk s) a = Some Dir" by (simp add: settled_def)
    with fs_mkdir_keeps [OF m] have a1: "lookup d1 a = Some Dir" by blast
    with nd have "a \<noteq> q" by (auto simp: isDir_def)
    with a1 show ?thesis by (simp add: lookup_put)
  qed
  from there dirs show ?thesis by (simp add: settled_def s')
qed

lemma writeFile_again:
  assumes "settled (disk s) p c"
  shows "\<exists>s'. writeFile p c s = (Inr (), s')"
proof -
  from assms have pne: "p \<noteq> []" by (auto simp: settled_def lookup_def)
  have nofile: "\<not> list_ex (isFile (disk s)) (dirsTo (butlast p))"
    using assms by (auto simp: settled_def list_ex_iff isFile_def)
  then obtain d1 where m: "fs_mkdir (butlast p) (disk s) = Inr ((), d1)"
    by (simp add: fs_mkdir_def)
  have notin: "p \<notin> set (dirsTo (butlast p))"
  proof
    assume "p \<in> set (dirsTo (butlast p))"
    then have "length p \<le> length (butlast p)" by (rule dirsTo_shorter)
    with pne show False by (cases p rule: rev_cases) auto
  qed
  have 1: "\<not> isDir d1 p"
    using fs_mkdir_lookup(1) [OF m, of p] notin assms by (simp add: isDir_def settled_def)
  have 2: "isDir d1 (butlast p)"
  proof (cases "butlast p = []")
    case True
    then show ?thesis by (simp add: isDir_def lookup_def)
  next
    case False
    then have "butlast p \<in> set (dirsTo (butlast p))"
      by (rule dirsTo_self)
    with fs_mkdir_lookup(1) [OF m, of "butlast p"] show ?thesis by (simp add: isDir_def)
  qed
  from m 1 2 show ?thesis
    by (auto simp: writeFile_def andThen_def onDisk_def fs_writeFile_def isFile_def isDir_def)
qed

lemma writeJson_remote_cases:
  assumes "initialized s" "mode s \<noteq> LOCAL" "writeJson P k v s = (r, s')"
  obtains (localFailure) m where "r = Inl (FsError m)" "trace s' = trace s"
  | (synced) s3 where "trace s3 = trace s" "pending s3 = pending s" "initialized s3"
      "branch s3 = branch s" "gitEnv s3 = gitEnv s"
      "settled (disk s3) (resolveWorkingPath P k) (contentOf P v)"
      "settled (disk s3) (resolveLocalPath P k) (contentOf P v)"
      "settled (disk s3) (resolveGitPath P k) (contentOf P v)"
      "syncTail P [k] s3 = (r, s')"
proof -
  let ?c = "contentOf P v"
  let ?s0 = "s\<lparr> files := dedupe (files s @ [k]) \<rparr>"
  from assms have run:
    "andThen (writeFile (resolveWorkingPath P k) ?c) (\<lambda>_.
     andThen (writeFile (resolveLocalPath P k) ?c) (\<lambda>_.
     andThen (gets mode) (\<lambda>m.
     if m = LOCAL then
       andThen (modify (\<lambda>s. s\<lparr> pending := False \<rparr>)) (\<lambda>_. getState)
     else
       andThen (writeFile (resolveGitPath P k) ?c) (\<lambda>_. syncTail P [k])))) ?s0 = (r, s')"
    by (simp add: writeJson_def ensureInitialized_ready andThen_def getState_def)
  from run show ?thesis
  proof (cases rule: andThenE)
    case (throws e)
    with writeFile_Inl [OF throws(1)] writeFile_frame [OF throws(1)] localFailure
    show ?thesis by auto
  next
    case a: (continues u1 s1)
    from writeFile_frame [OF a(1)] obtain d1 where s1: "s1 = ?s0\<lparr>disk := d1\<rparr>" by blast
    have w1: "settled (disk s1) (resolveWorkingPath P k) ?c"
      by (rule writeFile_settles [OF a(1)])
    from a(2) show ?thesis
    proof (cases rule: andThenE)
      case (throws e)
      with writeFile_Inl [OF throws(1)] writeFile_frame [OF throws(1)] s1 localFailure
      show ?thesis by auto
    next
      case b: (continues u2 s2)
      from writeFile_frame [OF b(1)] obtain d2 where s2: "s2 = s1\<lparr>disk := d2\<rparr>" by blast
      have w2: "settled (disk s2) (resolveWorkingPath P k) ?c"
        by (rule writeFile_keeps_settled [OF b(1) w1]) simp
      have l2: "settled (disk s2) (resolveLocalPath P k) ?c"
        by (rule writeFile_settles [OF b(1)])
      from b(2) assms(2) s1 s2 have g:
        "andThen (writeFile (resolveGitPath P k) ?c) (\<lambda>_. syncTail P [k]) s2 = (r, s')"
        by (simp add: andThen_gets)
      from g show ?thesis
      proof (cases rule: andThenE)
        case (throws e)
        with writeFile_Inl [OF throws(1)] writeFile_frame [OF throws(1)] s1 s2 localFailure
        show ?thesis by auto
      next
        case c: (continues u3 s3)
        from writeFile_frame [OF c(1)] obtain d3 where s3: "s3 = s2\<lparr>disk := d3\<rparr>" by blast
        have w3: "settled (disk s3) (resolveWorkingPath P k) ?c"
          by (rule writeFile_keeps_settled [OF c(1) w2]) simp
        have l3: "settled (disk s3) (resolveLocalPath P k) ?c"
          by (rule writeFile_keeps_settled [OF c(1) l2]) simp
        have g3: "settled (disk s3) (resolveGitPath P k) ?c"
          by (rule writeFile_settles [OF c(1)])
        show ?thesis
          by (rule synced [of s3]) (use s1 s2 s3 assms(1) w3 l3 g3 c(2) in simp_all)
      qed
    qed
  qed
qed

subsection \<open>Writes to a store with a remote\<close>

text \<open>
  Claim C5. In an initialised store that is not in LOCAL mode, a write whose staged-diff
  check finds nothing (\<^verbatim>\<open>git diff --cached --quiet\<close> exits with 0) runs no
  \<^verbatim>\<open>git commit\<close>, and it runs \<^verbatim>\<open>git push\<close> exactly when a push was pending
  before the call. For every write that resolves, a push is run exactly when the
  staged-diff check found a difference or a push was pending.
\<close>

theorem write_push_decision:
  assumes "initialized s" "mode s \<noteq> LOCAL" "writeJson P k v s = (r, s')"
  shows "((\<exists>e\<in>set (newEvents s s'). verb e = ''diff'' \<and> succeeded e) \<longrightarrow>
            (\<forall>e\<in>set (newEvents s s'). verb e \<noteq> ''commit'')
            \<and> ((\<exists>e\<in>set (newEvents s s'). verb e = ''push'') \<longleftrightarrow> pending s))
       \<and> ((\<exists>st. r = Inr st) \<longrightarrow>
            ((\<exists>e\<in>set (newEvents s s'). verb e = ''push'') \<longleftrightarrow>
               (\<exists>e\<in>set (newEvents s s'). verb e = ''diff'' \<and> \<not> succeeded e) \<or> pending s))"
  using assms
proof (cases rule: writeJson_remote_cases)
  case (localFailure m)
  then show ?thesis by (simp add: newEvents_def)
next
  case (synced s3)
  from synced(9) show ?thesis
  proof (cases rule: tail_cases)
    case (addFailed e1 m)
    with synced(1) have "newEvents s s' = [e1]" by (simp add: newEvents_def)
    with addFailed show ?thesis by simp
  next
    case (commitFailed e1 e2 cs m)
    with synced(1) have "newEvents s s' = e1 # e2 # cs" by (simp add: newEvents_def)
    with commitFailed show ?thesis by auto
  next
    case (pushed e1 e2 cs ps ok)
    with synced(1) have ev: "newEvents s s' = e1 # e2 # cs @ ps" by (simp add: newEvents_def)
    have pushes: "(\<exists>e\<in>set (newEvents s s'). verb e = ''push'') \<longleftrightarrow>
                    (\<exists>e\<in>set ps. verb e = ''push'')"
      unfolding ev using pushed(2,3,5) by auto
    have diffs: "(\<exists>e\<in>set (newEvents s s'). verb e = ''diff'' \<and> succeeded e) \<longleftrightarrow> succeeded e2"
      "(\<exists>e\<in>set (newEvents s s'). verb e = ''diff'' \<and> \<not> succeeded e) \<longleftrightarrow> \<not> succeeded e2"
      unfolding ev using pushed(2,3,5,6) by (auto simp: verb_def)
    have commits: "succeeded e2 \<Longrightarrow> \<forall>e\<in>set (newEvents s s'). verb e \<noteq> ''commit''"
      unfolding ev using pushed(2,3,4,6) by (auto simp: verb_def)
    show ?thesis
      unfolding pushes diffs using commits pushed(7) synced(2) by blast
  qed
qed

lemma pinned_syncTailD:
  assumes "gitKeeps P p" "syncTail P ks s = (r, s')" "pinned p f s"
  shows "pinned p f s'"
proof -
  have "\<forall>s. pinned p f s \<longrightarrow> pinned p f (snd (syncTail P ks s))"
    using pinned_syncTail [OF assms(1), of f ks] unfolding hoare_def .
  then have "pinned p f (snd (syncTail P ks s))"
    using assms(3) by blast
  then show ?thesis
    unfolding assms(2) by simp
qed


lemma verb_simps:
  "verb (Git (pushCall P s) outcome) = ''push''" "verb (Sleep n) = []"
  by (simp_all add: verb_def pushCall_def)

text \<open>
  Claim C2. In an initialised store that is not in LOCAL mode, on a platform whose git
  leaves the working path and the local-mirror path of the key alone, a write whose
  pushes are exactly three failed runs resolves (it does not reject) to the snapshot
  DEGRADED, pending, with the message of the third failure as error; the world has the
  same mode, flag and error, and the working path and the local-mirror path both hold
  the content that was written.
\<close>

theorem write_push_exhausted:
  assumes "initialized s" "mode s \<noteq> LOCAL"
    and "gitKeeps P (resolveWorkingPath P k)" "gitKeeps P (resolveLocalPath P k)"
    and "writeJson P k v s = (r, s')"
    and "filter (\<lambda>e. verb e = ''push'') (newEvents s s') =
           [Git (pushCall P s) (Some m1), Git (pushCall P s) (Some m2),
            Git (pushCall P s) (Some m3)]"
  shows "r = Inr \<lparr> st_mode = DEGRADED, st_pending = True,
                   st_error = Some (errText (GitError m3)), st_branch = branch s \<rparr>
       \<and> mode s' = DEGRADED \<and> pending s'
       \<and> error s' = Some (errText (GitError m3))
       \<and> lookup (disk s') (resolveWorkingPath P k) = Some (File (contentOf P v))
       \<and> lookup (disk s') (resolveLocalPath P k) = Some (File (contentOf P v))"
  using assms(1,2,5)
proof (cases rule: writeJson_remote_cases)
  case (localFailure m)
  with assms(6) show ?thesis by (simp add: newEvents_def)
next
  case (synced s3)
  have pc: "pushCall P s3 = pushCall P s"
    using synced(4,5) by (simp add: pushCall_def)
  have "pinned (resolveWorkingPath P k) (lookup (disk s3)) s3"
    by (simp add: pinned_def)
  then have "pinned (resolveWorkingPath P k) (lookup (disk s3)) s'"
    by (rule pinned_syncTailD [OF assms(3) synced(9)])
  from settled_pinned [OF this, of "contentOf P v"]
  have "settled (disk s') (resolveWorkingPath P k) (contentOf P v)"
    using synced(6) by simp
  then have keepW: "lookup (disk s') (resolveWorkingPath P k) = Some (File (contentOf P v))"
    by (simp add: settled_def)
  have "pinned (resolveLocalPath P k) (lookup (disk s3)) s3"
    by (simp add: pinned_def)
  then have "pinned (resolveLocalPath P k) (lookup (disk s3)) s'"
    by (rule pinned_syncTailD [OF assms(4) synced(9)])
  from settled_pinned [OF this, of "contentOf P v"]
  have "settled (disk s') (resolveLocalPath P k) (contentOf P v)"
    using synced(7) by simp
  then have keepL: "lookup (disk s') (resolveLocalPath P k) = Some (File (contentOf P v))"
    by (simp add: settled_def)
  from synced(9) show ?thesis
  proof (cases rule: tail_cases)
    case (addFailed e1 m)
    with synced(1) have "newEvents s s' = [e1]" by (simp add: newEvents_def)
    with addFailed assms(6) show ?thesis by simp
  next
    case (commitFailed e1 e2 cs m)
    with synced(1) have "newEvents s s' = e1 # e2 # cs" by (simp add: newEvents_def)
    moreover have "filter (\<lambda>e. verb e = ''push'') cs = []"
      using commitFailed(5) by (auto simp: filter_empty_conv)
    ultimately show ?thesis using commitFailed assms(6) by simp
  next
    case (pushed e1 e2 cs ps ok)
    with synced(1) have ev: "newEvents s s' = e1 # e2 # cs @ ps" by (simp add: newEvents_def)
    have "filter (\<lambda>e. verb e = ''push'') cs = []"
      using pushed(5) by (auto simp: filter_empty_conv)
    with ev pushed(2,3) assms(6) have fp:
      "filter (\<lambda>e. verb e = ''push'') ps =
         [Git (pushCall P s) (Some m1), Git (pushCall P s) (Some m2),
          Git (pushCall P s) (Some m3)]"
      by simp
    have allfail: "\<forall>e\<in>set ps. verb e = ''push'' \<longrightarrow> \<not> succeeded e"
    proof (intro ballI impI)
      fix e assume "e \<in> set ps" "verb e = ''push''"
      then have "e \<in> set (filter (\<lambda>e. verb e = ''push'') ps)" by simp
      with fp show "\<not> succeeded e" by (auto simp: succeeded_def)
    qed
    have some: "\<exists>e\<in>set ps. verb e = ''push''"
    proof -
      have "Git (pushCall P s) (Some m1) \<in> set (filter (\<lambda>e. verb e = ''push'') ps)"
        using fp by simp
      then show ?thesis by auto
    qed
    from pushed(7,8) allfail some have nok: "\<not> ok" by blast
    with pushed(9) obtain n1 n2 n3 where
      ps: "ps = [Git (pushCall P s3) (Some n1), Sleep 3000,
                 Git (pushCall P s3) (Some n2), Sleep 3000,
                 Git (pushCall P s3) (Some n3), Sleep 3000]"
      and err: "error s' = Some (errText (GitError n3))"
      by blast
    from fp ps have "n3 = m3"
      by (simp add: verb_simps)
    moreover have "branch s' = branch s"
      using pushed(15) synced(4) by simp
    ultimately show ?thesis
      using err nok pushed(10,11,12) keepW keepL by simp
  qed
qed

end
